theory Spec2Isabelle
  imports Main "HOL-Library.Word"
begin

unbundle bit_operations_syntax

section \<open>Machine integers and failures\<close>

type_synonym u32 = "32 word"
type_synonym u64 = "64 word"

text \<open>
  A failed \<^verbatim>\<open>assert\<close> aborts the process; an index past the end of a caller's array and
  a remainder by zero are failures of the same kind. Each is a value of this type.
\<close>

datatype error = AssertionFailed | DivisionByZero | KeysOverflow

section \<open>Problem wrappers (include/mitm.hpp)\<close>

text \<open>
  The user's claw problem: the widths \<^verbatim>\<open>n\<close> and \<^verbatim>\<open>m\<close> and the pure functions
  \<^verbatim>\<open>f\<close>, \<^verbatim>\<open>g\<close> and \<^verbatim>\<open>is_good_pair\<close>. In collision mode only \<^verbatim>\<open>f\<close> is used.
\<close>

record AbstractProblem =
  pb_n :: nat
  pb_m :: nat
  pb_f :: "u64 \<Rightarrow> u64"
  pb_g :: "u64 \<Rightarrow> u64"
  pb_is_good_pair :: "u64 \<Rightarrow> u64 \<Rightarrow> bool"

subsection \<open>ConcreteCollisionProblem\<close>

definition Collision_mix :: "u64 \<Rightarrow> u64 \<Rightarrow> u64" where
  "Collision_mix i x = i XOR x"

definition Collision_mixf :: "AbstractProblem \<Rightarrow> u64 \<Rightarrow> u64 \<Rightarrow> u64" where
  "Collision_mixf pb i x = pb_f pb (Collision_mix i x)"

definition Collision_mix_good_pair :: "AbstractProblem \<Rightarrow> u64 \<Rightarrow> u64 \<Rightarrow> u64 \<Rightarrow> bool" where
  "Collision_mix_good_pair pb i x0 x1 =
     pb_is_good_pair pb (Collision_mix i x0) (Collision_mix i x1)"

subsection \<open>EqualSizeClawWrapper\<close>

text \<open>
  \<^verbatim>\<open>choose\<close> reads bit \<^verbatim>\<open>m - 1\<close> of the wrapping 64-bit product \<^verbatim>\<open>x * (i | 1)\<close>.
  The shift is defined in the source for \<^verbatim>\<open>1 <= m <= 64\<close>.
\<close>

definition EqualSize_choose :: "AbstractProblem \<Rightarrow> u64 \<Rightarrow> u64 \<Rightarrow> bool" where
  "EqualSize_choose pb i x = ((drop_bit (pb_m pb - 1) (x * (i OR 1))) AND 1 \<noteq> 0)"

definition EqualSize_mix :: "u64 \<Rightarrow> u64 \<Rightarrow> u64" where
  "EqualSize_mix i x = i XOR x"

definition EqualSize_mixf :: "AbstractProblem \<Rightarrow> u64 \<Rightarrow> u64 \<Rightarrow> u64" where
  "EqualSize_mixf pb i x =
     (let y = EqualSize_mix i x
      in if EqualSize_choose pb i x then pb_f pb y else pb_g pb y)"

definition EqualSize_swap :: "AbstractProblem \<Rightarrow> u64 \<Rightarrow> u64 \<Rightarrow> u64 \<Rightarrow> error + (u64 \<times> u64)" where
  "EqualSize_swap pb i a b =
     (let x0 = (if EqualSize_choose pb i a then a else b);
          x1 = (if EqualSize_choose pb i b then a else b)
      in if \<not> EqualSize_choose pb i x0 then Inl AssertionFailed
         else if EqualSize_choose pb i x1 then Inl AssertionFailed
         else Inr (x0, x1))"

definition EqualSize_mix_good_pair ::
  "AbstractProblem \<Rightarrow> u64 \<Rightarrow> u64 \<Rightarrow> u64 \<Rightarrow> error + bool" where
  "EqualSize_mix_good_pair pb i a b =
     (if EqualSize_choose pb i a = EqualSize_choose pb i b then Inr False
      else case EqualSize_swap pb i a b of
             Inl e \<Rightarrow> Inl e
           | Inr (x0, x1) \<Rightarrow>
               Inr (pb_is_good_pair pb (EqualSize_mix i x0) (EqualSize_mix i x1)))"

subsection \<open>LargerRangeClawWrapper\<close>

definition LargerRange_choose :: "u64 \<Rightarrow> u64 \<Rightarrow> bool" where
  "LargerRange_choose i x = (x AND 1 \<noteq> 0)"

definition LargerRange_mix :: "AbstractProblem \<Rightarrow> u64 \<Rightarrow> u64 \<Rightarrow> u64" where
  "LargerRange_mix pb i x = drop_bit (pb_m pb - pb_n pb) (i XOR x)"

definition LargerRange_mixf :: "AbstractProblem \<Rightarrow> u64 \<Rightarrow> u64 \<Rightarrow> u64" where
  "LargerRange_mixf pb i x =
     (let y = LargerRange_mix pb i x
      in if LargerRange_choose i x then pb_f pb y else pb_g pb y)"

definition LargerRange_swap :: "u64 \<Rightarrow> u64 \<Rightarrow> u64 \<Rightarrow> error + (u64 \<times> u64)" where
  "LargerRange_swap i a b =
     (let x0 = (if LargerRange_choose i a then a else b);
          x1 = (if LargerRange_choose i b then a else b)
      in if \<not> LargerRange_choose i x0 then Inl AssertionFailed
         else if LargerRange_choose i x1 then Inl AssertionFailed
         else Inr (x0, x1))"

subsection \<open>The entry points \<^verbatim>\<open>collision_search\<close> and \<^verbatim>\<open>claw_search\<close> (include/mitm.hpp)\<close>

text \<open>
  Both are templates over the engine; \<open>run\<close> is the triple \<^verbatim>\<open>(i, x, y)\<close> that
  \<^verbatim>\<open>_Engine::run\<close> returned. Each \<^verbatim>\<open>assert\<close> that fails stops the call.
\<close>

definition collision_search :: "AbstractProblem \<Rightarrow> u64 \<times> u64 \<times> u64 \<Rightarrow> error + (u64 \<times> u64)" where
  "collision_search Pb run =
     (case run of
        (i, x, y) \<Rightarrow>
          let a = Collision_mix i x; b = Collision_mix i y
          in if \<not> (a \<noteq> b) then Inl AssertionFailed
             else if \<not> (pb_f Pb a = pb_f Pb b) then Inl AssertionFailed
             else if \<not> pb_is_good_pair Pb a b then Inl AssertionFailed
             else Inr (a, b))"

text \<open>
  The quality control of \<^verbatim>\<open>claw_search\<close>. Its mask \<^verbatim>\<open>(1 << pb.n) - 1\<close> is computed in
  \<^verbatim>\<open>int\<close>, which is \<^verbatim>\<open>2^n - 1\<close> for \<^verbatim>\<open>n <= 30\<close>; the shift overflows beyond.
\<close>

definition quality_control :: "AbstractProblem \<Rightarrow> u64 \<Rightarrow> u64 \<Rightarrow> error + (u64 \<times> u64)" where
  "quality_control pb x0 x1 =
     (if \<not> (x0 AND (2 ^ pb_n pb - 1) = x0) then Inl AssertionFailed
      else if \<not> (x1 AND (2 ^ pb_n pb - 1) = x1) then Inl AssertionFailed
      else if \<not> (pb_f pb x0 = pb_g pb x1) then Inl AssertionFailed
      else if \<not> pb_is_good_pair pb x0 x1 then Inl AssertionFailed
      else Inr (x0, x1))"

definition claw_search :: "AbstractProblem \<Rightarrow> u64 \<times> u64 \<times> u64 \<Rightarrow> error + (u64 \<times> u64)" where
  "claw_search pb run =
     (case run of
        (i, a, b) \<Rightarrow>
          if pb_n pb = pb_m pb then
            (case EqualSize_swap pb i a b of
               Inl e \<Rightarrow> Inl e
             | Inr (u, v) \<Rightarrow> quality_control pb (EqualSize_mix i u) (EqualSize_mix i v))
          else if pb_n pb < pb_m pb then
            (case LargerRange_swap i a b of
               Inl e \<Rightarrow> Inl e
             | Inr (u, v) \<Rightarrow> quality_control pb (LargerRange_mix pb i u) (LargerRange_mix pb i v))
          else Inl AssertionFailed)"

section \<open>Distributed sender: chain starts (include/mpi/pcs\_sender.hpp)\<close>

text \<open>
  The sender's loop variable: \<^verbatim>\<open>j = msg[1] + 3*local_rank\<close>, then \<^verbatim>\<open>j += 3*n_send\<close> on
  every pass, in wrapping 64-bit arithmetic. \<open>sender_j seed_base rank n_send t\<close> is \<^verbatim>\<open>j\<close> at
  pass \<open>t\<close>; the chain of that pass starts at \<^verbatim>\<open>j & Pb.mask\<close>.
\<close>

primrec sender_j :: "u64 \<Rightarrow> nat \<Rightarrow> nat \<Rightarrow> nat \<Rightarrow> u64" where
  "sender_j seed_base local_rank n_send 0 = seed_base + of_nat (3 * local_rank)"
| "sender_j seed_base local_rank n_send (Suc t) =
     sender_j seed_base local_rank n_send t + of_nat (3 * n_send)"

definition sender_start :: "u64 \<Rightarrow> u64 \<Rightarrow> nat \<Rightarrow> nat \<Rightarrow> nat \<Rightarrow> u64" where
  "sender_start msk seed_base local_rank n_send t =
     sender_j seed_base local_rank n_send t AND msk"

section \<open>The compact dictionary (include/mpi\_naive\_isend.hpp)\<close>

text \<open>
  \<^verbatim>\<open>struct entry { u32 k; u64 v; }\<close> and the class \<^verbatim>\<open>CompactDict\<close> with its fields
  \<^verbatim>\<open>n_slots\<close> and \<^verbatim>\<open>A\<close>. The constructor fills \<^verbatim>\<open>A\<close> with \<^verbatim>\<open>n_slots\<close> copies of the empty
  entry, whose key is the sentinel \<^verbatim>\<open>0xffffffff\<close>.
\<close>

record entry =
  e_k :: u32
  e_v :: u64

record CompactDict =
  n_slots :: u64
  d_A :: "entry list"

definition CompactDict_new :: "u64 \<Rightarrow> CompactDict" where
  "CompactDict_new S = \<lparr>n_slots = S, d_A = replicate (unat S) \<lparr>e_k = 0xffffffff, e_v = 0\<rparr>\<rparr>"

text \<open>The start slot \<^verbatim>\<open>(key ^ (key >> 32)) % n_slots\<close>, as an index into \<^verbatim>\<open>A\<close>.\<close>

definition start_slot :: "u64 \<Rightarrow> u64 \<Rightarrow> nat" where
  "start_slot S key = unat ((key XOR drop_bit 32 key) mod S)"

text \<open>\<^verbatim>\<open>h += 1; if (h == n_slots) h = 0;\<close> (\<^verbatim>\<open>h < n_slots\<close>, so the increment cannot wrap).\<close>

definition next_slot :: "nat \<Rightarrow> nat \<Rightarrow> nat" where
  "next_slot S h = (if h + 1 = S then 0 else h + 1)"

text \<open>
  The \<^verbatim>\<open>for (;;)\<close> of \<^verbatim>\<open>insert\<close>: it leaves only at an empty slot, so it need not return.
  \<open>None\<close> is the loop that runs forever.
\<close>

partial_function (option) insert_loop :: "entry list \<Rightarrow> nat \<Rightarrow> nat \<Rightarrow> nat option" where
  "insert_loop A S h =
     (if e_k (A ! h) = 0xffffffff then Some h else insert_loop A S (next_slot S h))"

text \<open>
  \<^verbatim>\<open>insert\<close>: \<open>None\<close> when the probe loop never ends, \<open>Some (Inl DivisionByZero)\<close> for the
  remainder by \<^verbatim>\<open>n_slots = 0\<close>, else the updated dictionary. The stored key is
  \<^verbatim>\<open>key % 0xfffffffb\<close> narrowed to 32 bits.
\<close>

definition CompactDict_insert :: "CompactDict \<Rightarrow> u64 \<Rightarrow> u64 \<Rightarrow> (error + CompactDict) option" where
  "CompactDict_insert d key val =
     (if n_slots d = 0 then Some (Inl DivisionByZero)
      else case insert_loop (d_A d) (unat (n_slots d)) (start_slot (n_slots d) key) of
             None \<Rightarrow> None
           | Some h \<Rightarrow>
               Some (Inr (d\<lparr>d_A := (d_A d)[h := \<lparr>e_k = ucast (key mod 0xfffffffb), e_v = val\<rparr>]\<rparr>)))"

text \<open>
  \<^verbatim>\<open>probe\<close>, first loop: \<open>Some None\<close> is the \<^verbatim>\<open>return 0\<close> at an empty slot, \<open>Some (Some h)\<close> the
  \<^verbatim>\<open>break\<close> at the first slot holding the key.
\<close>

partial_function (option) probe_seek :: "entry list \<Rightarrow> nat \<Rightarrow> u32 \<Rightarrow> nat \<Rightarrow> nat option option" where
  "probe_seek A S key h =
     (if e_k (A ! h) = 0xffffffff then Some None
      else if e_k (A ! h) = key then Some (Some h)
      else probe_seek A S key (next_slot S h))"

text \<open>\<^verbatim>\<open>probe\<close>, second loop: \<^verbatim>\<open>while (A[h].k == key)\<close>, appending \<^verbatim>\<open>A[h].v\<close> to \<^verbatim>\<open>keys\<close>.\<close>

partial_function (option) probe_collect ::
  "entry list \<Rightarrow> nat \<Rightarrow> u32 \<Rightarrow> nat \<Rightarrow> u64 list \<Rightarrow> u64 list option" where
  "probe_collect A S key h keys =
     (if e_k (A ! h) = key then probe_collect A S key (next_slot S h) (keys @ [e_v (A ! h)])
      else Some keys)"

text \<open>
  \<^verbatim>\<open>probe\<close> returns \<^verbatim>\<open>nkeys\<close> and has written \<^verbatim>\<open>keys[0 .. nkeys-1]\<close>; the model returns that
  list. The capacity of the caller's array is the caller's business (see the receiver).
\<close>

definition CompactDict_probe :: "CompactDict \<Rightarrow> u64 \<Rightarrow> (error + u64 list) option" where
  "CompactDict_probe d bigkey =
     (if n_slots d = 0 then Some (Inl DivisionByZero)
      else let key = ucast (bigkey mod 0xfffffffb) :: u32;
               S = unat (n_slots d)
           in case probe_seek (d_A d) S key (start_slot (n_slots d) bigkey) of
                None \<Rightarrow> None
              | Some None \<Rightarrow> Some (Inr [])
              | Some (Some h) \<Rightarrow>
                  (case probe_collect (d_A d) S key h [] of
                     None \<Rightarrow> None
                   | Some keys \<Rightarrow> Some (Inr keys)))"

text \<open>A run of insertions, as the receiver makes in phase 0, and a probe after it.\<close>

fun insert_all :: "CompactDict \<Rightarrow> (u64 \<times> u64) list \<Rightarrow> (error + CompactDict) option" where
  "insert_all d [] = Some (Inr d)"
| "insert_all d ((key, val) # kvs) =
     (case CompactDict_insert d key val of
        Some (Inr d') \<Rightarrow> insert_all d' kvs
      | r \<Rightarrow> r)"

definition probe_after ::
  "CompactDict \<Rightarrow> (u64 \<times> u64) list \<Rightarrow> u64 \<Rightarrow> (error + u64 list) option" where
  "probe_after d kvs bigkey =
     (case insert_all d kvs of
        None \<Rightarrow> None
      | Some (Inl e) \<Rightarrow> Some (Inl e)
      | Some (Inr d') \<Rightarrow> CompactDict_probe d' bigkey)"

section \<open>The naive distributed claw search (include/mpi\_naive\_isend.hpp)\<close>

text \<open>
  What a sender pushes in one phase: for every \<^verbatim>\<open>x\<close> of its range \<^verbatim>\<open>[lo, hi)\<close> the triple
  of \<^verbatim>\<open>x\<close>, \<^verbatim>\<open>z\<close> (\<^verbatim>\<open>f(x)\<close> in phase 0, \<^verbatim>\<open>g(x)\<close> in phase 1) and the target receiver
  \<^verbatim>\<open>((z * 0xdeadbeef) % 0x7fffffff) % n_recv\<close>; with \<^verbatim>\<open>EXPENSIVE_F\<close> defined, \<^verbatim>\<open>push2\<close> sends
  \<^verbatim>\<open>x\<close> and \<^verbatim>\<open>z\<close>. The ranks exist, so \<^verbatim>\<open>n_send > 0\<close> and \<^verbatim>\<open>n_recv > 0\<close>.
\<close>

definition sender_pushes ::
  "AbstractProblem \<Rightarrow> nat \<Rightarrow> nat \<Rightarrow> nat \<Rightarrow> nat \<Rightarrow> (u64 \<times> u64 \<times> nat) list" where
  "sender_pushes Pb phase local_rank n_send n_recv =
     (let N = push_bit (pb_n Pb) 1 :: u64;
          lo = (of_nat local_rank * N) div of_nat n_send;
          hi = (of_nat (local_rank + 1) * N) div of_nat n_send
      in map (\<lambda>i. let x = of_nat i :: u64;
                       z = (if phase = 0 then pb_f Pb x else pb_g Pb x);
                       hash = (z * 0xdeadbeef) mod 0x7fffffff
                   in (x, z, unat hash mod n_recv))
             [unat lo ..< unat hi])"

text \<open>
  The receiver's state: its dictionary, its \<^verbatim>\<open>result\<close> vector and the two counters that
  \<^verbatim>\<open>ctr.collision_failure()\<close> and \<^verbatim>\<open>ctr.found_collision()\<close> advance.
\<close>

record Receiver =
  r_dict :: CompactDict
  r_result :: "(u64 \<times> u64) list"
  r_collision_failures :: nat
  r_collisions :: nat

text \<open>The loop over the \<^verbatim>\<open>nkeys\<close> values that \<^verbatim>\<open>probe\<close> returned for one received \<^verbatim>\<open>(x, z)\<close>.\<close>

fun probe_keys :: "AbstractProblem \<Rightarrow> u64 \<Rightarrow> u64 \<Rightarrow> u64 list \<Rightarrow> Receiver \<Rightarrow> Receiver" where
  "probe_keys Pb x z [] st = st"
| "probe_keys Pb x z (y # keys) st =
     (if z \<noteq> pb_f Pb y
      then probe_keys Pb x z keys (st\<lparr>r_collision_failures := r_collision_failures st + 1\<rparr>)
      else let st' = st\<lparr>r_collisions := r_collisions st + 1\<rparr>
           in if pb_is_good_pair Pb y x
              then probe_keys Pb x z keys (st'\<lparr>r_result := r_result st' @ [(y, x)]\<rparr>)
              else probe_keys Pb x z keys st')"

text \<open>
  One received pair \<^verbatim>\<open>(x, z)\<close>: \<^verbatim>\<open>dict.insert(z, x)\<close> in phase 0; in phase 1 the probe into
  \<^verbatim>\<open>u64 keys[3 * Pb.n]\<close>, which overflows when the probe returns more values than that.
\<close>

definition receive_item ::
  "AbstractProblem \<Rightarrow> nat \<Rightarrow> Receiver \<Rightarrow> u64 \<times> u64 \<Rightarrow> (error + Receiver) option" where
  "receive_item Pb phase st xz =
     (let x = fst xz; z = snd xz
      in if phase = 0 then
           (case CompactDict_insert (r_dict st) z x of
              None \<Rightarrow> None
            | Some (Inl e) \<Rightarrow> Some (Inl e)
            | Some (Inr d') \<Rightarrow> Some (Inr (st\<lparr>r_dict := d'\<rparr>)))
         else if phase = 1 then
           (case CompactDict_probe (r_dict st) z of
              None \<Rightarrow> None
            | Some (Inl e) \<Rightarrow> Some (Inl e)
            | Some (Inr keys) \<Rightarrow>
                if length keys > 3 * pb_n Pb then Some (Inl KeysOverflow)
                else Some (Inr (probe_keys Pb x z keys st)))
         else Some (Inr st))"

fun receive_all ::
  "AbstractProblem \<Rightarrow> nat \<Rightarrow> Receiver \<Rightarrow> (u64 \<times> u64) list \<Rightarrow> (error + Receiver) option" where
  "receive_all Pb phase st [] = Some (Inr st)"
| "receive_all Pb phase st (xz # items) =
     (case receive_item Pb phase st xz of
        Some (Inr st') \<Rightarrow> receive_all Pb phase st' items
      | r \<Rightarrow> r)"

text \<open>
  One rank over the two phases (\<^verbatim>\<open>ctr.reset()\<close> opens each phase): the pairs it receives
  in phase 0 and in phase 1, and its \<^verbatim>\<open>result\<close> vector at the end. A rank that is not a
  receiver receives nothing and its vector stays empty.
\<close>

definition rank_run ::
  "AbstractProblem \<Rightarrow> CompactDict \<Rightarrow> (u64 \<times> u64) list \<Rightarrow> (u64 \<times> u64) list
     \<Rightarrow> (error + (u64 \<times> u64) list) option" where
  "rank_run Pb d items0 items1 =
     (case receive_all Pb 0
             \<lparr>r_dict = d, r_result = [], r_collision_failures = 0, r_collisions = 0\<rparr> items0 of
        None \<Rightarrow> None
      | Some (Inl e) \<Rightarrow> Some (Inl e)
      | Some (Inr st) \<Rightarrow>
          (case receive_all Pb 1 (st\<lparr>r_collision_failures := 0, r_collisions := 0\<rparr>) items1 of
             None \<Rightarrow> None
           | Some (Inl e) \<Rightarrow> Some (Inl e)
           | Some (Inr st') \<Rightarrow> Some (Inr (r_result st'))))"

text \<open>
  The final exchange: every rank writes its pairs as two consecutive words into \<^verbatim>\<open>tmp\<close>
  at its displacement, \<^verbatim>\<open>MPI_Allgatherv\<close> fills in the other ranks' words, and \<^verbatim>\<open>result\<close>
  is rebuilt from \<^verbatim>\<open>tmp\<close> two words at a time.
\<close>

definition flatten_pairs :: "(u64 \<times> u64) list \<Rightarrow> u64 list" where
  "flatten_pairs r = concat (map (\<lambda>p. [fst p, snd p]) r)"

fun pairs_of :: "u64 list \<Rightarrow> (u64 \<times> u64) list" where
  "pairs_of (x0 # x1 # tmp) = (x0, x1) # pairs_of tmp"
| "pairs_of tmp = []"

definition allgather_result :: "(u64 \<times> u64) list list \<Rightarrow> (u64 \<times> u64) list" where
  "allgather_result results = pairs_of (concat (map flatten_pairs results))"

section \<open>The sequential engine (mitm\_sequential.hpp)\<close>

text \<open>
  The engine is a template over a \<^verbatim>\<open>Problem\<close> with three domains \<^verbatim>\<open>A\<close>, \<^verbatim>\<open>B\<close>, \<^verbatim>\<open>C\<close>. The record
  holds what the engine calls on it: \<^verbatim>\<open>f\<close>, \<^verbatim>\<open>g\<close>, the embeddings \<^verbatim>\<open>send_C_to_A\<close> and
  \<^verbatim>\<open>send_C_to_B\<close>, the constant \<^verbatim>\<open>f_eq_g\<close>, and of the domain \<^verbatim>\<open>C\<close> the functions
  \<^verbatim>\<open>extract_1_bit\<close>, \<^verbatim>\<open>hash\<close>, \<^verbatim>\<open>is_equal\<close> and \<^verbatim>\<open>randomize\<close>. \<^verbatim>\<open>randomize(x, prng)\<close> receives the
  old value of \<^verbatim>\<open>x\<close> by reference and the generator, of state \<open>'r\<close>.
  \<^verbatim>\<open>update_embedding(prng)\<close> replaces the two embeddings.
\<close>

record ('a, 'b, 'c, 'r) Problem =
  Pb_f :: "'a \<Rightarrow> 'c"
  Pb_g :: "'b \<Rightarrow> 'c"
  send_C_to_A :: "'c \<Rightarrow> 'a"
  send_C_to_B :: "'c \<Rightarrow> 'b"
  f_eq_g :: bool
  C_extract_1_bit :: "'c \<Rightarrow> int"
  C_hash :: "'c \<Rightarrow> u64"
  C_is_equal :: "'c \<Rightarrow> 'c \<Rightarrow> bool"
  C_randomize :: "'c \<Rightarrow> 'r \<Rightarrow> 'c \<times> 'r"
  update_embedding :: "'r \<Rightarrow> ('c \<Rightarrow> 'a) \<times> ('c \<Rightarrow> 'b) \<times> 'r"

definition iterate_once :: "('a, 'b, 'c, 'r) Problem \<Rightarrow> 'c \<Rightarrow> 'c" where
  "iterate_once Pb inp =
     (if C_extract_1_bit Pb inp = 1 then Pb_f Pb (send_C_to_A Pb inp)
      else Pb_g Pb (send_C_to_B Pb inp))"

definition is_distinguished_point :: "u64 \<Rightarrow> u64 \<Rightarrow> bool" where
  "is_distinguished_point digest msk = (0 = (msk AND digest))"

text \<open>
  The loop of \<^verbatim>\<open>generate_dist_point\<close>. The state is what \<^verbatim>\<open>*tmp_inp_pt\<close> and \<^verbatim>\<open>*out_pt\<close>
  hold (two distinct buffers, so \<^verbatim>\<open>swap_pointers\<close> exchanges the two values) and
  \<^verbatim>\<open>chain_length\<close>; \<open>i\<close> and \<open>bound\<close> are 64-bit.
\<close>

function gdp_loop ::
  "('a, 'b, 'c, 'r) Problem \<Rightarrow> u64 \<Rightarrow> u64 \<Rightarrow> u64 \<Rightarrow> 'c \<times> 'c \<times> u64 \<Rightarrow> bool \<times> 'c \<times> 'c \<times> u64" where
  "gdp_loop Pb msk bound i (tmp_inp, out, chain_length) =
     (if i < bound then
        (let out' = iterate_once Pb tmp_inp;
             chain_length' = chain_length + 1
         in if is_distinguished_point (C_hash Pb out') msk
            then (True, tmp_inp, out', chain_length')
            else gdp_loop Pb msk bound (i + 1) (out', tmp_inp, chain_length'))
      else (False, tmp_inp, out, chain_length))"
  by pat_completeness auto
termination
proof (relation "measure (\<lambda>(Pb, msk, bound, i, st). unat bound - unat i)")
  show "wf (measure (\<lambda>(Pb, msk, bound, i, st). unat bound - unat i))" by simp
next
  fix Pb :: "('a, 'b, 'c, 'r) Problem" and msk bound i :: u64
    and tmp_inp out :: 'c and chain_length :: u64 and st x xa y
  assume "i < bound"
  then have lt: "unat i < unat bound" by (simp add: word_less_nat_alt)
  have "unat bound < 2 ^ LENGTH(64)" by (rule unsigned_less)
  with lt have "unat i + unat (1 :: u64) < 2 ^ LENGTH(64)" by simp
  then have "unat (i + 1) = unat i + unat (1 :: u64)" by (simp only: unat_add_lem)
  then have "unat (i + 1) = unat i + 1" by simp
  with lt show "((Pb, msk, bound, i + 1, x, tmp_inp, xa), Pb, msk, bound, i, tmp_inp, out, chain_length)
        \<in> measure (\<lambda>(Pb, msk, bound, i, st). unat bound - unat i)"
    by simp
qed

text \<open>
  \<^verbatim>\<open>generate_dist_point\<close>: the input is copied into \<^verbatim>\<open>*tmp_inp_pt\<close>, the mask is
  \<^verbatim>\<open>(1LL << difficulty) - 1\<close> and the bound \<^verbatim>\<open>k * (1LL << difficulty)\<close> with \<^verbatim>\<open>k = 40\<close>, an
  unsigned 64-bit product that wraps. The shift is defined in the source for
  \<^verbatim>\<open>0 <= difficulty <= 63\<close>. The result is the returned flag with the buffers and the
  counter as the call leaves them.
\<close>

definition generate_dist_point ::
  "('a, 'b, 'c, 'r) Problem \<Rightarrow> 'c \<Rightarrow> 'c \<times> 'c \<Rightarrow> u64 \<Rightarrow> nat \<Rightarrow> bool \<times> 'c \<times> 'c \<times> u64" where
  "generate_dist_point Pb inp0 bufs chain_length difficulty =
     gdp_loop Pb (push_bit difficulty 1 - 1) (40 * push_bit difficulty 1) 0
       (inp0, snd bufs, chain_length)"

text \<open>\<open>chain Pb n x\<close>: \<^verbatim>\<open>iterate_once\<close> applied \<open>n\<close> times to \<open>x\<close>.\<close>

definition chain :: "('a, 'b, 'c, 'r) Problem \<Rightarrow> nat \<Rightarrow> 'c \<Rightarrow> 'c" where
  "chain Pb n x = (iterate_once Pb ^^ n) x"

text \<open>
  \<^verbatim>\<open>walk\<close>. Its first two loops move the longer chain forward, one step and one
  \<^verbatim>\<open>swap_pointers\<close> per pass, decrementing its length. The lengths are only compared and
  decremented while positive, so they are natural numbers here.
\<close>

function walk_advance ::
  "('a, 'b, 'c, 'r) Problem \<Rightarrow> nat \<Rightarrow> nat \<Rightarrow> 'c \<times> 'c \<Rightarrow> nat \<times> 'c \<times> 'c" where
  "walk_advance Pb len_a len_b (inp, out) =
     (if len_a > len_b then walk_advance Pb (len_a - 1) len_b (iterate_once Pb inp, inp)
      else (len_a, inp, out))"
  by pat_completeness auto
termination
  by (relation "measure (\<lambda>(Pb, len_a, len_b, st). len_a - len_b)") auto

text \<open>The third loop of \<^verbatim>\<open>walk\<close>: both chains step together until their outputs agree.\<close>

function walk_sync ::
  "('a, 'b, 'c, 'r) Problem \<Rightarrow> nat \<Rightarrow> nat \<Rightarrow> 'c \<times> 'c \<times> 'c \<times> 'c \<Rightarrow> bool \<times> 'c \<times> 'c \<times> 'c \<times> 'c" where
  "walk_sync Pb len i (inp0, out0, inp1, out1) =
     (if i < len then
        (let out0' = iterate_once Pb inp0;
             out1' = iterate_once Pb inp1
         in if C_is_equal Pb out0' out1' then (True, inp0, out0', inp1, out1')
            else walk_sync Pb len (i + 1) (out0', inp0, out1', inp1))
      else (False, inp0, out0, inp1, out1))"
  by pat_completeness auto
termination
  by (relation "measure (\<lambda>(Pb, len, i, st). len - i)") auto

definition walk ::
  "('a, 'b, 'c, 'r) Problem \<Rightarrow> 'c \<times> 'c \<Rightarrow> nat \<Rightarrow> 'c \<times> 'c \<Rightarrow> nat \<Rightarrow> bool \<times> 'c \<times> 'c \<times> 'c \<times> 'c" where
  "walk Pb bufs0 inp0_chain_len bufs1 inp1_chain_len =
     (let len = min inp0_chain_len inp1_chain_len;
          (inp0_chain_len', inp0, out0) = walk_advance Pb inp0_chain_len inp1_chain_len bufs0;
          (inp1_chain_len', inp1, out1) = walk_advance Pb inp1_chain_len inp0_chain_len' bufs1
      in walk_sync Pb len 0 (inp0, out0, inp1, out1))"

text \<open>
  The inner \<^verbatim>\<open>for\<close> of \<^verbatim>\<open>collision\<close>, one pass per attempt. \<open>attempt\<close> is the pass up to
  \<^verbatim>\<open>if (not found_dist) continue;\<close> and returns \<^verbatim>\<open>found_dist\<close>; \<open>on_dp\<close> is the rest of the
  pass. A pass that finds a distinguished point runs \<^verbatim>\<open>++n_dist_points\<close> in the body and
  again in the loop header. \<^verbatim>\<open>n_dist_points\<close> and the bound \<^verbatim>\<open>10*dict.n_slots\<close> are
  \<^verbatim>\<open>size_t\<close>; they are natural numbers here (a table of \<open>S\<close> slots fits in memory, so
  \<open>10 * S + 1\<close> does not wrap).
\<close>

function version_loop ::
  "('s \<Rightarrow> bool \<times> 's) \<Rightarrow> ('s \<Rightarrow> 's) \<Rightarrow> nat \<Rightarrow> nat \<Rightarrow> 's \<Rightarrow> 's" where
  "version_loop attempt on_dp bound n_dist_points s =
     (if n_dist_points < bound then
        (case attempt s of
           (found_dist, s') \<Rightarrow>
             if \<not> found_dist then version_loop attempt on_dp bound (n_dist_points + 1) s'
             else version_loop attempt on_dp bound ((n_dist_points + 1) + 1) (on_dp s'))
      else s)"
  by pat_completeness auto
termination
  by (relation "measure (\<lambda>(attempt, on_dp, bound, n_dist_points, s). bound - n_dist_points)")
     auto

declare version_loop.simps [simp del]

text \<open>
  The loop with a body that only counts: the state is the number of attempts made
  (\<^verbatim>\<open>n_distinguished_points\<close> of the source) and the number of distinguished points found
  and handed to the dictionary; \<open>found k\<close> tells whether attempt number \<open>k\<close> finds one.
\<close>

definition count_attempt :: "(nat \<Rightarrow> bool) \<Rightarrow> nat \<times> nat \<Rightarrow> bool \<times> nat \<times> nat" where
  "count_attempt found s = (found (fst s), (fst s + 1, snd s))"

definition count_on_dp :: "nat \<times> nat \<Rightarrow> nat \<times> nat" where
  "count_on_dp s = (fst s, snd s + 1)"

subsection \<open>The dictionary of the engine\<close>

text \<open>
  Modelled from the spec: the class \<^verbatim>\<open>Dict\<close> (dict.hpp), whose \<^verbatim>\<open>n_slots\<close>, \<^verbatim>\<open>flush\<close> and
  \<^verbatim>\<open>pop_insert\<close> the engine calls, is not among the sources. The spec's dictionary (4.4)
  has a fixed number of slots, each empty or holding a truncated key
  (\<^verbatim>\<open>key mod 0xFFFF_FFFB\<close>), a seed and a chain length. \<^verbatim>\<open>insert_or_probe\<close> starts at slot
  \<^verbatim>\<open>(digest XOR (digest >> 32)) mod S\<close> and probes forward, wrapping at \<open>S\<close>: an empty slot
  is written and the outcome is \<^verbatim>\<open>inserted\<close>; a slot with the same key gives
  \<^verbatim>\<open>collision_candidate\<close> with the stored seed and length, nothing being overwritten;
  after \<open>S\<close> probes the outcome is \<^verbatim>\<open>full\<close>. Clearing empties every slot.
\<close>

type_synonym 'c Dict = "(u32 \<times> 'c \<times> u64) option list"

datatype 'c outcome = inserted "'c Dict" | collision_candidate 'c u64 | full

definition Dict_new :: "nat \<Rightarrow> 'c Dict" where
  "Dict_new S = replicate S None"

definition Dict_flush :: "'c Dict \<Rightarrow> 'c Dict" where
  "Dict_flush d = map (\<lambda>slot. None) d"

fun Dict_probe :: "nat \<Rightarrow> 'c Dict \<Rightarrow> nat \<Rightarrow> u32 \<Rightarrow> 'c \<Rightarrow> u64 \<Rightarrow> 'c outcome" where
  "Dict_probe 0 d h key seed len = full"
| "Dict_probe (Suc budget) d h key seed len =
     (case d ! h of
        None \<Rightarrow> inserted (d[h := Some (key, seed, len)])
      | Some (key', seed', len') \<Rightarrow>
          if key' = key then collision_candidate seed' len'
          else Dict_probe budget d (if h + 1 = length d then 0 else h + 1) key seed len)"

definition insert_or_probe :: "'c Dict \<Rightarrow> u64 \<Rightarrow> 'c \<Rightarrow> u64 \<Rightarrow> 'c outcome" where
  "insert_or_probe d dp_digest seed len =
     (if length d = 0 then full
      else Dict_probe (length d) d
             (unat (dp_digest XOR drop_bit 32 dp_digest) mod length d)
             (ucast (dp_digest mod 0xfffffffb)) seed len)"

subsection \<open>The function \<^verbatim>\<open>collision\<close>\<close>

text \<open>
  \<^verbatim>\<open>send_2_A_and_B\<close>: \<open>Some\<close> of the two embedded inputs when it returns true. In the
  branch \<^verbatim>\<open>extract_1_bit(inp0) == 1\<close>, \<^verbatim>\<open>extract_1_bit(inp1) == 0\<close> the source fills the
  two outputs and then falls through to \<^verbatim>\<open>return false\<close>.
\<close>

definition send_2_A_and_B :: "('a, 'b, 'c, 'r) Problem \<Rightarrow> 'c \<Rightarrow> 'c \<Rightarrow> ('a \<times> 'b) option" where
  "send_2_A_and_B Pb inp0_C inp1_C =
     (if f_eq_g Pb then Some (send_C_to_A Pb inp0_C, send_C_to_B Pb inp1_C)
      else if C_extract_1_bit Pb inp0_C = 1 then None
      else if C_extract_1_bit Pb inp1_C = 1
           then Some (send_C_to_A Pb inp1_C, send_C_to_B Pb inp0_C)
           else None)"

text \<open>
  \<^verbatim>\<open>treat_collision\<close>: the returned flag, the four buffers as \<^verbatim>\<open>walk\<close> leaves them, and the
  container.
\<close>

definition treat_collision ::
  "('a, 'b, 'c, 'r) Problem \<Rightarrow> 'c \<times> 'c \<Rightarrow> u64 \<Rightarrow> 'c \<times> 'c \<Rightarrow> u64 \<Rightarrow> ('a \<times> 'b) list
     \<Rightarrow> bool \<times> ('c \<times> 'c \<times> 'c \<times> 'c) \<times> ('a \<times> 'b) list" where
  "treat_collision Pb bufs0 inp0_chain_len bufs1 inp1_chain_len container =
     (case walk Pb bufs0 (unat inp0_chain_len) bufs1 (unat inp1_chain_len) of
        (found_collision, inp0, out0, inp1, out1) \<Rightarrow>
          if \<not> found_collision then (False, (inp0, out0, inp1, out1), container)
          else if C_is_equal Pb inp0 inp1 then (False, (inp0, out0, inp1, out1), container)
          else (case send_2_A_and_B Pb inp0 inp1 of
                  None \<Rightarrow> (False, (inp0, out0, inp1, out1), container)
                | Some p \<Rightarrow> (True, (inp0, out0, inp1, out1), container @ [p])))"

text \<open>
  The local variables of \<^verbatim>\<open>collision\<close> that live across passes: the problem (its
  embedding changes with the version), the generator, the dictionary, \<^verbatim>\<open>pre_inp0\<close>, what
  the four buffer pointers point to, the two chain lengths, the counters and the
  container.
\<close>

record ('a, 'b, 'c, 'r) Locals =
  c_Pb :: "('a, 'b, 'c, 'r) Problem"
  c_rng :: 'r
  c_dict :: "'c Dict"
  c_pre_inp0 :: 'c
  c_inp0 :: 'c
  c_out0 :: 'c
  c_inp1 :: 'c
  c_out1 :: 'c
  c_chain_length0 :: u64
  c_chain_length1 :: u64
  c_n_collisions :: nat
  c_n_robinhoods :: nat
  c_n_distinguished_points :: nat
  c_collisions_container :: "('a \<times> 'b) list"

text \<open>One pass up to \<^verbatim>\<open>if (not found_dist) continue;\<close>, with \<^verbatim>\<open>difficulty = 9\<close>.\<close>

definition attempt ::
  "('a, 'b, 'c, 'r) Locals \<Rightarrow> bool \<times> ('a, 'b, 'c, 'r) Locals" where
  "attempt st =
     (case C_randomize (c_Pb st) (c_pre_inp0 st) (c_rng st) of
        (pre_inp0, rng) \<Rightarrow>
          (case generate_dist_point (c_Pb st) pre_inp0 (c_inp0 st, c_out0 st) 0 9 of
             (found_dist, inp0, out0, chain_length0) \<Rightarrow>
               (found_dist,
                st\<lparr>c_rng := rng, c_pre_inp0 := pre_inp0, c_inp0 := inp0, c_out0 := out0,
                   c_chain_length0 := chain_length0,
                   c_n_distinguished_points := c_n_distinguished_points st + 1\<rparr>)))"

text \<open>
  The rest of the pass: \<^verbatim>\<open>pop_insert\<close> (through the spec's \<^verbatim>\<open>insert_or_probe\<close>: a candidate
  is the collision found, its seed and length going to \<^verbatim>\<open>*inp1_pt\<close> and \<^verbatim>\<open>chain_length1\<close>),
  then on a collision the copy of \<^verbatim>\<open>pre_inp0\<close> into \<^verbatim>\<open>*inp0_pt\<close>, \<^verbatim>\<open>treat_collision\<close> and
  the robin-hood counter.
\<close>

definition on_dp :: "('a, 'b, 'c, 'r) Locals \<Rightarrow> ('a, 'b, 'c, 'r) Locals" where
  "on_dp st =
     (case insert_or_probe (c_dict st) (C_hash (c_Pb st) (c_out0 st)) (c_pre_inp0 st)
             (c_chain_length0 st) of
        inserted d \<Rightarrow> st\<lparr>c_dict := d\<rparr>
      | full \<Rightarrow> st
      | collision_candidate seed len \<Rightarrow>
          (case treat_collision (c_Pb st) (c_pre_inp0 st, c_out0 st) (c_chain_length0 st)
                  (seed, c_out1 st) len (c_collisions_container st) of
             (is_potential_coll, (inp0, out0, inp1, out1), container) \<Rightarrow>
               st\<lparr>c_inp0 := inp0, c_out0 := out0, c_inp1 := inp1, c_out1 := out1,
                  c_chain_length1 := len,
                  c_n_collisions := c_n_collisions st + 1,
                  c_n_robinhoods :=
                    c_n_robinhoods st + (if C_is_equal (c_Pb st) inp0 inp1 then 1 else 0),
                  c_collisions_container := container\<rparr>))"

text \<open>One version: \<^verbatim>\<open>update_embedding\<close>, \<^verbatim>\<open>dict.flush()\<close> and the inner loop.\<close>

definition version :: "('a, 'b, 'c, 'r) Locals \<Rightarrow> ('a, 'b, 'c, 'r) Locals" where
  "version st =
     (case update_embedding (c_Pb st) (c_rng st) of
        (to_A, to_B, rng) \<Rightarrow>
          version_loop attempt on_dp (10 * length (c_dict st)) 0
            (st\<lparr>c_Pb := (c_Pb st)\<lparr>send_C_to_A := to_A, send_C_to_B := to_B\<rparr>,
               c_rng := rng, c_dict := Dict_flush (c_dict st)\<rparr>))"

text \<open>
  \<^verbatim>\<open>while (n_collisions < n_needed_collisions)\<close> with \<^verbatim>\<open>n_needed_collisions = 1LL<<20\<close>. The
  loop need not end: \<open>None\<close> is the run that goes on forever.
\<close>

partial_function (option) collision_while ::
  "('a, 'b, 'c, 'r) Locals \<Rightarrow> ('a, 'b, 'c, 'r) Locals option" where
  "collision_while st =
     (if c_n_collisions st < 2 ^ 20 then collision_while (version st) else Some st)"

text \<open>
  \<^verbatim>\<open>collision(Pb)\<close>. The generator's state after the sanity test (which only prints) and
  the number of slots that the available memory gives the dictionary are parameters;
  \<open>zero\<close> is the value-initialised \<^verbatim>\<open>C_t\<close>. The function returns
  \<^verbatim>\<open>pair(*inp0_pt, *inp1_pt)\<close>.
\<close>

definition collision ::
  "('a, 'b, 'c, 'r) Problem \<Rightarrow> 'r \<Rightarrow> nat \<Rightarrow> 'c \<Rightarrow> ('c \<times> 'c) option" where
  "collision Pb rng slots zero =
     (case collision_while
             \<lparr>c_Pb = Pb, c_rng = rng, c_dict = Dict_new slots, c_pre_inp0 = zero,
              c_inp0 = zero, c_out0 = zero, c_inp1 = zero, c_out1 = zero,
              c_chain_length0 = 0, c_chain_length1 = 0, c_n_collisions = 0,
              c_n_robinhoods = 0, c_n_distinguished_points = 0,
              c_collisions_container = []\<rparr> of
        None \<Rightarrow> None
      | Some st \<Rightarrow> Some (c_inp0 st, c_inp1 st))"

section \<open>Concrete instances\<close>

definition toy_claw :: AbstractProblem where
  "toy_claw = \<lparr>pb_n = 4, pb_m = 4, pb_f = (\<lambda>x. x), pb_g = (\<lambda>x. x),
                pb_is_good_pair = (\<lambda>x y. True)\<rparr>"

text \<open>A two-slot dictionary holding one entry.\<close>

definition half2 :: CompactDict where
  "half2 = \<lparr>n_slots = 2, d_A = [\<lparr>e_k = 0, e_v = 1\<rparr>, \<lparr>e_k = 0xffffffff, e_v = 0\<rparr>]\<rparr>"

text \<open>
  A problem on natural numbers in collision mode: \<^verbatim>\<open>f(x) = g(x) = x / 2\<close>, identity
  embeddings, the hash is the value itself, and \<^verbatim>\<open>randomize\<close> leaves its argument.
\<close>

definition toy_half :: "(nat, nat, nat, unit) Problem" where
  "toy_half = \<lparr>Pb_f = (\<lambda>x. x div 2), Pb_g = (\<lambda>x. x div 2),
                send_C_to_A = (\<lambda>x. x), send_C_to_B = (\<lambda>x. x), f_eq_g = True,
                C_extract_1_bit = (\<lambda>x. 1), C_hash = of_nat, C_is_equal = (=),
                C_randomize = (\<lambda>x r. (x, r)),
                update_embedding = (\<lambda>r. ((\<lambda>x. x), (\<lambda>x. x), r))\<rparr>"

text \<open>
  A claw problem on 2 bits: \<^verbatim>\<open>f(x) = x\<close>, \<^verbatim>\<open>g(x) = 3 - x\<close>, and the golden pair is the one
  whose first component is 1.
\<close>

definition toy_naive :: AbstractProblem where
  "toy_naive = \<lparr>pb_n = 2, pb_m = 2, pb_f = (\<lambda>x. x), pb_g = (\<lambda>x. 3 - x),
                 pb_is_good_pair = (\<lambda>y x. y = 1)\<rparr>"

text \<open>
  A collision problem on \<^verbatim>\<open>unsigned int\<close>: \<^verbatim>\<open>f(x) = g(x) = (x == 1 ? 3 : x + 1)\<close>, whose
  only collision is \<^verbatim>\<open>f(1) = f(2) = 3\<close>; the hash is constantly 0, so every point is
  distinguished; \<^verbatim>\<open>randomize(x, prng)\<close> sets \<^verbatim>\<open>x = (x + 1) % 5\<close> and leaves the generator;
  \<^verbatim>\<open>update_embedding\<close> keeps the identity embeddings.
\<close>

definition toy_cycle :: "(u32, u32, u32, 'r) Problem" where
  "toy_cycle = \<lparr>Pb_f = (\<lambda>x. if x = 1 then 3 else x + 1),
                 Pb_g = (\<lambda>x. if x = 1 then 3 else x + 1),
                 send_C_to_A = (\<lambda>x. x), send_C_to_B = (\<lambda>x. x), f_eq_g = True,
                 C_extract_1_bit = (\<lambda>x. 1), C_hash = (\<lambda>x. 0), C_is_equal = (=),
                 C_randomize = (\<lambda>x r. ((x + 1) mod 5, r)),
                 update_embedding = (\<lambda>r. ((\<lambda>x. x), (\<lambda>x. x), r))\<rparr>"

text \<open>
  The locals of \<^verbatim>\<open>collision\<close> on that problem as every complete group of five passes
  leaves them, up to the dictionary, the counters and the container.
\<close>

definition settled ::
  "'r \<Rightarrow> u32 Dict \<Rightarrow> nat \<Rightarrow> nat \<Rightarrow> nat \<Rightarrow> (u32 \<times> u32) list \<Rightarrow> (u32, u32, u32, 'r) Locals" where
  "settled rng d nc nr np cont =
     \<lparr>c_Pb = toy_cycle, c_rng = rng, c_dict = d, c_pre_inp0 = 0,
      c_inp0 = 1, c_out0 = 0, c_inp1 = 3, c_out1 = 1,
      c_chain_length0 = 1, c_chain_length1 = 1, c_n_collisions = nc,
      c_n_robinhoods = nr, c_n_distinguished_points = np,
      c_collisions_container = cont\<rparr>"


section \<open>Properties of the wrappers\<close>

lemma EqualSize_swap_differ:
  assumes "EqualSize_choose pb i a \<noteq> EqualSize_choose pb i b"
  shows "EqualSize_swap pb i a b =
           Inr (if EqualSize_choose pb i a then (a, b) else (b, a))"
  using assms by (auto simp: EqualSize_swap_def Let_def)

lemma EqualSize_swap_same:
  assumes "EqualSize_choose pb i a = EqualSize_choose pb i b"
  shows "EqualSize_swap pb i a b = Inl AssertionFailed"
  using assms by (auto simp: EqualSize_swap_def Let_def)

text \<open>
  C8, as the spec words it: \<^verbatim>\<open>choose\<close> of the \<^emph>\<open>mixed\<close> components of \<^verbatim>\<open>swap\<close> is 1 and 0.
  With \<^verbatim>\<open>m = 4\<close>, \<^verbatim>\<open>i = 8\<close>, \<^verbatim>\<open>a = 1\<close>, \<^verbatim>\<open>b = 0\<close> the wrapper returns \<^verbatim>\<open>(1, 0)\<close>, and
  \<^verbatim>\<open>choose\<close> of the mixed values \<^verbatim>\<open>9\<close> and \<^verbatim>\<open>8\<close> is 0 and 1, the other way round.
\<close>

theorem EqualSize_choose_of_mix_counterexample:
  "EqualSize_swap toy_claw 8 1 0 = Inr (1, 0)
   \<and> EqualSize_choose toy_claw 8 (EqualSize_mix 8 1) = False
   \<and> EqualSize_choose toy_claw 8 (EqualSize_mix 8 0) = True"
  by (simp add: EqualSize_swap_def EqualSize_choose_def EqualSize_mix_def toy_claw_def)

text \<open>
  C8, amended: for \<^verbatim>\<open>1 <= m <= 64\<close> and every \<^verbatim>\<open>i\<close>, \<^verbatim>\<open>a\<close>, \<^verbatim>\<open>b\<close>. When
  \<^verbatim>\<open>choose(i, a) != choose(i, b)\<close>, \<^verbatim>\<open>swap(i, a, b)\<close> returns \<^verbatim>\<open>a\<close> and \<^verbatim>\<open>b\<close> ordered so that
  its first component has \<^verbatim>\<open>choose = 1\<close> and its second \<^verbatim>\<open>choose = 0\<close> (the components
  themselves, before \<^verbatim>\<open>mix\<close>), and \<^verbatim>\<open>mix_good_pair\<close> is the user's predicate on the mixed
  components. When \<^verbatim>\<open>choose(i, a) == choose(i, b)\<close>, \<^verbatim>\<open>mix_good_pair\<close> returns false and
  \<^verbatim>\<open>swap\<close> stops on its assertion.
\<close>

theorem EqualSize_swap_canonical:
  assumes "1 \<le> pb_m pb" and "pb_m pb \<le> 64"
  shows "(EqualSize_choose pb i a \<noteq> EqualSize_choose pb i b \<longrightarrow>
           (\<exists>x0 x1. EqualSize_swap pb i a b = Inr (x0, x1)
              \<and> (x0 = a \<and> x1 = b \<or> x0 = b \<and> x1 = a)
              \<and> EqualSize_choose pb i x0 \<and> \<not> EqualSize_choose pb i x1
              \<and> EqualSize_mix_good_pair pb i a b =
                    Inr (pb_is_good_pair pb (EqualSize_mix i x0) (EqualSize_mix i x1))))
       \<and> (EqualSize_choose pb i a = EqualSize_choose pb i b \<longrightarrow>
             EqualSize_swap pb i a b = Inl AssertionFailed
             \<and> EqualSize_mix_good_pair pb i a b = Inr False)"
proof (cases "EqualSize_choose pb i a = EqualSize_choose pb i b")
  case True
  then show ?thesis
    by (simp add: EqualSize_swap_same EqualSize_mix_good_pair_def)
next
  case False
  then show ?thesis
    by (cases "EqualSize_choose pb i a")
       (simp_all add: EqualSize_swap_differ EqualSize_mix_good_pair_def)
qed

theorem EqualSize_swap_canonical_witness:
  "EqualSize_swap toy_claw 8 1 0 = Inr (1, 0)
   \<and> EqualSize_choose toy_claw 8 1 \<and> \<not> EqualSize_choose toy_claw 8 0
   \<and> EqualSize_mix_good_pair toy_claw 8 1 0 = Inr True
   \<and> EqualSize_swap toy_claw 8 1 1 = Inl AssertionFailed
   \<and> EqualSize_mix_good_pair toy_claw 8 1 1 = Inr False"
proof -
  have m: "1 \<le> pb_m toy_claw" "pb_m toy_claw \<le> 64"
    by (simp_all add: toy_claw_def)
  have c1: "EqualSize_choose toy_claw 8 1" and c0: "\<not> EqualSize_choose toy_claw 8 0"
    by (simp_all add: EqualSize_choose_def toy_claw_def)
  have g: "pb_is_good_pair toy_claw x y" for x y
    by (simp add: toy_claw_def)
  from EqualSize_swap_canonical [OF m, of 8 1 0] c1 c0
  have "EqualSize_swap toy_claw 8 1 0 = Inr (1, 0)
        \<and> EqualSize_mix_good_pair toy_claw 8 1 0 = Inr True"
    by (auto simp: g)
  moreover from EqualSize_swap_canonical [OF m, of 8 1 1]
  have "EqualSize_swap toy_claw 8 1 1 = Inl AssertionFailed
        \<and> EqualSize_mix_good_pair toy_claw 8 1 1 = Inr False"
    by simp
  ultimately show ?thesis using c1 c0 by simp
qed

section \<open>Properties of the sender's chain starts\<close>

lemma sender_j_eq: "sender_j b r ns t = b + of_nat (3 * r + 3 * ns * t)"
  by (induction t) (simp_all add: algebra_simps)

lemma unat_start:
  assumes "n \<le> 64"
  shows "unat ((b + of_nat x :: u64) AND (2 ^ n - 1)) = (unat b + x) mod 2 ^ n"
proof -
  have d: "(2::nat) ^ n dvd 2 ^ 64" by (rule le_imp_power_dvd) (rule assms)
  have "(2 ^ n - 1 :: u64) = mask n" by (simp add: mask_eq_exp_minus_1)
  then have "unat ((b + of_nat x :: u64) AND (2 ^ n - 1))
             = unat (take_bit n (b + of_nat x :: u64))"
    by (simp add: take_bit_eq_mask)
  also have "\<dots> = take_bit n (unat (b + of_nat x :: u64))"
    by (rule unsigned_take_bit_eq)
  also have "\<dots> = unat (b + of_nat x :: u64) mod 2 ^ n"
    by (rule take_bit_eq_mod)
  also have "\<dots> = ((unat b + x mod 2 ^ 64) mod 2 ^ 64) mod 2 ^ n"
    by (simp add: unat_word_ariths unat_of_nat)
  also have "\<dots> = (unat b + x mod 2 ^ 64) mod 2 ^ n"
    using d by (simp add: mod_mod_cancel)
  also have "\<dots> = (unat b mod 2 ^ n + (x mod 2 ^ 64) mod 2 ^ n) mod 2 ^ n"
    by (simp add: mod_add_eq)
  also have "\<dots> = (unat b mod 2 ^ n + x mod 2 ^ n) mod 2 ^ n"
    using d by (simp add: mod_mod_cancel)
  also have "\<dots> = (unat b + x) mod 2 ^ n"
    by (simp add: mod_add_eq)
  finally show ?thesis .
qed

lemma mod_add_inj:
  fixes B x y M :: nat
  assumes "(B + x) mod M = (B + y) mod M" and "x < M" and "y < M"
  shows "x = y"
proof -
  have *: "x = y" if "x \<le> y" "(B + x) mod M = (B + y) mod M" "y < M" for x y :: nat
  proof -
    have "M dvd y - x"
      using that mod_eq_dvd_iff_nat [of "B + x" "B + y" M] by simp
    moreover have "y - x < M" using that by simp
    ultimately have "y - x = 0" by (meson dvd_imp_le not_less zero_less_iff_neq_zero)
    with that show ?thesis by simp
  qed
  show ?thesis
  proof (cases "x \<le> y")
    case True
    then show ?thesis using * assms by blast
  next
    case False
    then have "y \<le> x" by simp
    then have "y = x" using * [of y x] assms by simp
    then show ?thesis by simp
  qed
qed

text \<open>
  C9, as stated: the chain starts of two distinct ranks never coincide. With three
  senders, a 4-bit domain and \<^verbatim>\<open>seed_base = 0\<close>, rank 0 reaches at its twelfth pass
  (\<^verbatim>\<open>j = 99\<close>, \<^verbatim>\<open>99 & 15 = 3\<close>) the start that rank 1 uses at its first pass (\<^verbatim>\<open>j = 3\<close>).
\<close>

theorem sender_start_shared_counterexample:
  "sender_start (2 ^ 4 - 1) 0 0 3 11 = sender_start (2 ^ 4 - 1) 0 1 3 0"
  by (simp add: sender_start_def eval_nat_numeral)

text \<open>
  C9, amended: for every common \<^verbatim>\<open>seed_base\<close>, every domain width \<^verbatim>\<open>n <= 64\<close> with
  \<^verbatim>\<open>mask = 2^n - 1\<close>, and two distinct ranks below \<^verbatim>\<open>n_send\<close>, the starts of rank \<^verbatim>\<open>r\<close> at pass
  \<^verbatim>\<open>t\<close> and of rank \<^verbatim>\<open>r'\<close> at pass \<^verbatim>\<open>t'\<close> differ as long as both offsets
  \<^verbatim>\<open>3*rank + 3*n_send*pass\<close> are below \<^verbatim>\<open>2^n\<close>, that is, before the stream has gone once
  round the domain. (\<^verbatim>\<open>3*n_send\<close> is computed in \<^verbatim>\<open>int\<close>, hence the bound \<^verbatim>\<open>2^31\<close>.)
\<close>

theorem sender_start_disjoint:
  assumes "n \<le> 64" and "3 * n_send < 2 ^ 31"
    and "r < n_send" and "r' < n_send" and "r \<noteq> r'"
    and "3 * r + 3 * n_send * t < 2 ^ n" and "3 * r' + 3 * n_send * t' < 2 ^ n"
  shows "sender_start (2 ^ n - 1) seed_base r n_send t
         \<noteq> sender_start (2 ^ n - 1) seed_base r' n_send t'"
proof
  assume "sender_start (2 ^ n - 1) seed_base r n_send t
          = sender_start (2 ^ n - 1) seed_base r' n_send t'"
  then have "unat (sender_start (2 ^ n - 1) seed_base r n_send t)
             = unat (sender_start (2 ^ n - 1) seed_base r' n_send t')"
    by simp
  then have "(unat seed_base + (3 * r + 3 * n_send * t)) mod 2 ^ n
             = (unat seed_base + (3 * r' + 3 * n_send * t')) mod 2 ^ n"
    unfolding sender_start_def sender_j_eq unat_start [OF assms(1)] .
  then have "3 * r + 3 * n_send * t = 3 * r' + 3 * n_send * t'"
    using assms(6,7) by (rule mod_add_inj)
  then have "r + n_send * t = r' + n_send * t'" by simp
  then have "(r + n_send * t) mod n_send = (r' + n_send * t') mod n_send" by simp
  then have "r = r'" using assms(3,4) by simp
  with assms(5) show False by simp
qed

theorem sender_start_disjoint_witness:
  "sender_start (2 ^ 8 - 1) 5 0 2 3 \<noteq> sender_start (2 ^ 8 - 1) 5 1 2 2"
  using sender_start_disjoint [of 8 2 0 1 3 2 5] by simp

section \<open>Properties of the compact dictionary\<close>

lemma next_slot_mod: "h < S \<Longrightarrow> next_slot S h = (h + 1) mod S"
  by (auto simp: next_slot_def)

text \<open>The probe of \<^verbatim>\<open>insert\<close> stops at the first empty slot in cyclic order from its start.\<close>

lemma insert_loop_finds:
  assumes "h < S"
    and "e_k (A ! ((h + steps) mod S)) = 0xffffffff"
    and "\<forall>i < steps. e_k (A ! ((h + i) mod S)) \<noteq> 0xffffffff"
  shows "insert_loop A S h = Some ((h + steps) mod S)"
  using assms
proof (induction steps arbitrary: h)
  case 0
  then show ?case by (subst insert_loop.simps) simp
next
  case (Suc steps)
  from Suc.prems(3) have ne: "e_k (A ! h) \<noteq> 0xffffffff"
    using Suc.prems(1) by (metis add.right_neutral mod_less zero_less_Suc)
  have lt: "next_slot S h < S" using Suc.prems(1) by (simp add: next_slot_mod)
  have shift: "(next_slot S h + i) mod S = (h + Suc i) mod S" for i
    using Suc.prems(1) by (simp add: next_slot_mod mod_simps)
  have "insert_loop A S (next_slot S h) = Some ((next_slot S h + steps) mod S)"
  proof (rule Suc.IH [OF lt])
    show "e_k (A ! ((next_slot S h + steps) mod S)) = 0xffffffff"
      using Suc.prems(2) by (simp only: shift)
    show "\<forall>i < steps. e_k (A ! ((next_slot S h + i) mod S)) \<noteq> 0xffffffff"
      using Suc.prems(3) by (simp only: shift) auto
  qed
  then show ?case using ne by (subst insert_loop.simps) (simp add: shift)
qed

lemma first_empty_offset:
  assumes "h < S" and "j < S" and "e_k (A ! j) = 0xffffffff"
  shows "\<exists>steps < S. e_k (A ! ((h + steps) mod S)) = 0xffffffff
            \<and> (\<forall>i < steps. e_k (A ! ((h + i) mod S)) \<noteq> 0xffffffff)"
proof -
  let ?P = "\<lambda>s. e_k (A ! ((h + s) mod S)) = 0xffffffff"
  have "(h + (j + S - h) mod S) mod S = j"
    using assms(1,2) by (simp add: mod_simps)
  then have Pj: "?P ((j + S - h) mod S)" using assms(3) by simp
  define steps where "steps = (LEAST s. ?P s)"
  have Ps: "?P steps" unfolding steps_def using Pj by (rule LeastI)
  have "steps \<le> (j + S - h) mod S" unfolding steps_def using Pj by (rule Least_le)
  moreover have "(j + S - h) mod S < S" using assms(1) by simp
  ultimately have "steps < S" by simp
  moreover have "\<forall>i < steps. \<not> ?P i" unfolding steps_def using not_less_Least by blast
  ultimately show ?thesis using Ps by blast
qed

text \<open>Whenever the probe of \<^verbatim>\<open>insert\<close> returns, the table had an empty slot.\<close>

lemma insert_loop_full:
  assumes "insert_loop A S h = Some r"
  shows "h < S \<longrightarrow> (\<exists>j < S. e_k (A ! j) = 0xffffffff)"
proof (rule insert_loop.raw_induct
    [where P = "\<lambda>A S h r. h < S \<longrightarrow> (\<exists>j < S. e_k (A ! j) = 0xffffffff)", OF _ assms])
  fix loop :: "entry list \<Rightarrow> nat \<Rightarrow> nat \<Rightarrow> nat option" and A S h r
  assume IH: "\<And>A S h r. loop A S h = Some r \<Longrightarrow>
                 h < S \<longrightarrow> (\<exists>j < S. e_k (A ! j) = 0xffffffff)"
    and step: "(if e_k (A ! h) = 0xffffffff then Some h else loop A S (next_slot S h)) = Some r"
  show "h < S \<longrightarrow> (\<exists>j < S. e_k (A ! j) = 0xffffffff)"
  proof (cases "e_k (A ! h) = 0xffffffff")
    case True
    then show ?thesis by auto
  next
    case False
    with step have "loop A S (next_slot S h) = Some r" by simp
    from IH [OF this] show ?thesis by (auto simp: next_slot_def split: if_splits)
  qed
qed

lemma start_slot_less:
  assumes "S \<noteq> 0"
  shows "start_slot S key < unat S"
proof -
  have "0 < S" using assms by (simp add: word_neq_0_conv)
  then have "(key XOR drop_bit 32 key) mod S < S" by (rule word_mod_less_divisor)
  then show ?thesis by (simp add: start_slot_def word_less_nat_alt)
qed

lemma stored_key_not_empty: "(ucast ((key :: u64) mod 0xfffffffb) :: u32) \<noteq> 0xffffffff"
proof -
  have "key mod 0xfffffffb < 0xfffffffb" by (rule word_mod_less_divisor) simp
  then have lt: "unat (key mod 0xfffffffb) < 0xfffffffb" by (simp add: word_less_nat_alt)
  have "unat (ucast (key mod 0xfffffffb) :: u32) = unat (key mod 0xfffffffb) mod 2 ^ 32"
    by (simp add: unsigned_ucast_eq take_bit_eq_mod)
  also have "\<dots> = unat (key mod 0xfffffffb)" using lt by simp
  finally have "unat (ucast (key mod 0xfffffffb) :: u32) < 0xfffffffb" using lt by simp
  then show ?thesis by auto
qed

lemma stored_key_exact: "unat (ucast ((key :: u64) mod 0xfffffffb) :: u32) = unat key mod 0xfffffffb"
proof -
  have "key mod 0xfffffffb < 0xfffffffb" by (rule word_mod_less_divisor) simp
  then have lt: "unat (key mod 0xfffffffb) < 0xfffffffb" by (simp add: word_less_nat_alt)
  have "unat (ucast (key mod 0xfffffffb) :: u32) = unat (key mod 0xfffffffb) mod 2 ^ 32"
    by (simp add: unsigned_ucast_eq take_bit_eq_mod)
  also have "\<dots> = unat (key mod 0xfffffffb)" using lt by simp
  also have "\<dots> = unat key mod 0xfffffffb" by (simp add: unat_mod)
  finally show ?thesis .
qed

text \<open>
  C10: on a table built by the constructor (\<^verbatim>\<open>A\<close> has \<^verbatim>\<open>n_slots\<close> entries) with at least one
  empty slot, \<^verbatim>\<open>insert(key, value)\<close> returns, and it has written exactly one slot \<open>h\<close>: that
  slot was empty before and now holds \<^verbatim>\<open>(key % 0xfffffffb, value)\<close>, a key that is not the
  sentinel; every other slot holds the entry it held before. So an entry once stored is
  never overwritten, and a second insertion of the same key is stored beside the first.
\<close>

theorem CompactDict_insert_frame:
  assumes wf: "length (d_A d) = unat (n_slots d)"
    and free: "\<exists>j < length (d_A d). e_k (d_A d ! j) = 0xffffffff"
  shows "\<exists>h d'. CompactDict_insert d key val = Some (Inr d')
           \<and> h < length (d_A d)
           \<and> e_k (d_A d ! h) = 0xffffffff
           \<and> n_slots d' = n_slots d
           \<and> length (d_A d') = length (d_A d)
           \<and> d_A d' ! h = \<lparr>e_k = ucast (key mod 0xfffffffb), e_v = val\<rparr>
           \<and> unat (e_k (d_A d' ! h)) = unat key mod 0xfffffffb
           \<and> e_k (d_A d' ! h) \<noteq> 0xffffffff
           \<and> (\<forall>j < length (d_A d). j \<noteq> h \<longrightarrow> d_A d' ! j = d_A d ! j)"
proof -
  let ?S = "unat (n_slots d)" and ?st = "start_slot (n_slots d) key"
  from free obtain j where j: "j < ?S" "e_k (d_A d ! j) = 0xffffffff"
    using wf by auto
  then have nz: "n_slots d \<noteq> 0" by (auto simp: unat_eq_zero)
  then have h0: "?st < ?S" by (rule start_slot_less)
  from first_empty_offset [OF h0 j] obtain steps where
    s: "steps < ?S" "e_k (d_A d ! ((?st + steps) mod ?S)) = 0xffffffff"
       "\<forall>i < steps. e_k (d_A d ! ((?st + i) mod ?S)) \<noteq> 0xffffffff"
    by blast
  let ?h = "(?st + steps) mod ?S"
  have loop: "insert_loop (d_A d) ?S ?st = Some ?h"
    using h0 s(2,3) by (rule insert_loop_finds)
  have hlt: "?h < length (d_A d)" using wf h0 by simp
  let ?d' = "d\<lparr>d_A := (d_A d)[?h := \<lparr>e_k = ucast (key mod 0xfffffffb), e_v = val\<rparr>]\<rparr>"
  have "CompactDict_insert d key val = Some (Inr ?d')"
    using nz loop by (simp add: CompactDict_insert_def)
  moreover have "d_A ?d' ! ?h = \<lparr>e_k = ucast (key mod 0xfffffffb), e_v = val\<rparr>"
    using hlt by simp
  moreover have "\<forall>j < length (d_A d). j \<noteq> ?h \<longrightarrow> d_A ?d' ! j = d_A d ! j"
    by simp
  ultimately show ?thesis
    using hlt s(2) stored_key_not_empty [of key] stored_key_exact [of key]
    by (intro exI [of _ ?h] exI [of _ ?d']) simp
qed

theorem CompactDict_insert_frame_witness:
  "length (d_A half2) = unat (n_slots half2)
   \<and> (\<exists>j < length (d_A half2). e_k (d_A half2 ! j) = 0xffffffff)
   \<and> (\<exists>h d'. CompactDict_insert half2 0 2 = Some (Inr d')
          \<and> h < length (d_A half2)
          \<and> e_k (d_A half2 ! h) = 0xffffffff
          \<and> n_slots d' = n_slots half2
          \<and> length (d_A d') = length (d_A half2)
          \<and> d_A d' ! h = \<lparr>e_k = ucast ((0 :: u64) mod 0xfffffffb), e_v = 2\<rparr>
          \<and> unat (e_k (d_A d' ! h)) = unat (0 :: u64) mod 0xfffffffb
          \<and> e_k (d_A d' ! h) \<noteq> 0xffffffff
          \<and> (\<forall>j < length (d_A half2). j \<noteq> h \<longrightarrow> d_A d' ! j = d_A half2 ! j))"
proof -
  have wf: "length (d_A half2) = unat (n_slots half2)"
    by (simp add: half2_def)
  have free: "\<exists>j < length (d_A half2). e_k (d_A half2 ! j) = 0xffffffff"
    by (rule exI [of _ 1]) (simp add: half2_def)
  from CompactDict_insert_frame [OF wf free, of 0 2] wf free show ?thesis
    by blast
qed

text \<open>
  C6, as stated: insertion returns on every table, with the outcome \<^verbatim>\<open>full\<close> when no slot is
  empty. The code has no probe budget: the second insertion into a one-slot dictionary
  never returns.
\<close>

theorem CompactDict_insert_full_counterexample:
  "insert_all (CompactDict_new 1) [(0, 1), (0, 2)] = None"
proof -
  let ?full = "\<lparr>n_slots = 1, d_A = [\<lparr>e_k = 0, e_v = 1\<rparr>]\<rparr>"
  have first: "CompactDict_insert (CompactDict_new 1) 0 1 = Some (Inr ?full)"
    by (simp add: CompactDict_insert_def CompactDict_new_def start_slot_def
        insert_loop.simps)
  have second: "CompactDict_insert ?full 0 2 = None"
  proof (cases "insert_loop (d_A ?full) 1 0")
    case None
    then show ?thesis by (simp add: CompactDict_insert_def start_slot_def)
  next
    case (Some r)
    from insert_loop_full [OF this] show ?thesis by simp
  qed
  from first second show ?thesis by simp
qed

text \<open>
  C6, amended: on a table built by the constructor with \<^verbatim>\<open>n_slots > 0\<close>, \<^verbatim>\<open>insert\<close> returns
  exactly when the table has an empty slot; then its probe, wrapping at \<^verbatim>\<open>n_slots\<close>, stops at
  the first empty slot after \<open>steps < n_slots\<close> advances from the start slot, every slot
  passed on the way being occupied. There is no probe budget and no outcome \<^verbatim>\<open>full\<close>: on a
  full table the call does not return.
\<close>

theorem CompactDict_insert_terminates_iff:
  assumes wf: "length (d_A d) = unat (n_slots d)" and nz: "n_slots d \<noteq> 0"
  shows "((\<exists>r. CompactDict_insert d key val = Some r)
            \<longleftrightarrow> (\<exists>j < length (d_A d). e_k (d_A d ! j) = 0xffffffff))
       \<and> ((\<exists>j < length (d_A d). e_k (d_A d ! j) = 0xffffffff) \<longrightarrow>
            (\<exists>steps < unat (n_slots d).
               insert_loop (d_A d) (unat (n_slots d)) (start_slot (n_slots d) key)
                 = Some ((start_slot (n_slots d) key + steps) mod unat (n_slots d))
               \<and> e_k (d_A d ! ((start_slot (n_slots d) key + steps) mod unat (n_slots d)))
                   = 0xffffffff
               \<and> (\<forall>i < steps.
                     e_k (d_A d ! ((start_slot (n_slots d) key + i) mod unat (n_slots d)))
                       \<noteq> 0xffffffff)))"
proof -
  let ?S = "unat (n_slots d)" and ?st = "start_slot (n_slots d) key"
  have h0: "?st < ?S" using nz by (rule start_slot_less)
  have found: "\<exists>steps < ?S. insert_loop (d_A d) ?S ?st = Some ((?st + steps) mod ?S)
      \<and> e_k (d_A d ! ((?st + steps) mod ?S)) = 0xffffffff
      \<and> (\<forall>i < steps. e_k (d_A d ! ((?st + i) mod ?S)) \<noteq> 0xffffffff)"
    if "\<exists>j < length (d_A d). e_k (d_A d ! j) = 0xffffffff"
  proof -
    from that obtain j where j: "j < ?S" "e_k (d_A d ! j) = 0xffffffff"
      using wf by auto
    from first_empty_offset [OF h0 j] obtain steps where
      s: "steps < ?S" "e_k (d_A d ! ((?st + steps) mod ?S)) = 0xffffffff"
         "\<forall>i < steps. e_k (d_A d ! ((?st + i) mod ?S)) \<noteq> 0xffffffff"
      by blast
    have "insert_loop (d_A d) ?S ?st = Some ((?st + steps) mod ?S)"
      using h0 s(2,3) by (rule insert_loop_finds)
    with s show ?thesis by blast
  qed
  have "\<exists>j < length (d_A d). e_k (d_A d ! j) = 0xffffffff"
    if "CompactDict_insert d key val = Some r" for r
  proof -
    from that nz obtain h where "insert_loop (d_A d) ?S ?st = Some h"
      by (auto simp: CompactDict_insert_def split: option.splits)
    from insert_loop_full [OF this] h0 wf show ?thesis by simp
  qed
  moreover have "\<exists>r. CompactDict_insert d key val = Some r"
    if "\<exists>j < length (d_A d). e_k (d_A d ! j) = 0xffffffff"
    using found [OF that] nz by (auto simp: CompactDict_insert_def)
  ultimately show ?thesis using found by blast
qed


theorem CompactDict_insert_terminates_iff_witness:
  "(\<exists>r. CompactDict_insert half2 0 2 = Some r)
   \<and> (\<exists>steps < unat (n_slots half2).
         insert_loop (d_A half2) (unat (n_slots half2)) (start_slot (n_slots half2) 0)
           = Some ((start_slot (n_slots half2) 0 + steps) mod unat (n_slots half2))
         \<and> e_k (d_A half2 ! ((start_slot (n_slots half2) 0 + steps) mod unat (n_slots half2)))
             = 0xffffffff
         \<and> (\<forall>i < steps.
               e_k (d_A half2 ! ((start_slot (n_slots half2) 0 + i) mod unat (n_slots half2)))
                 \<noteq> 0xffffffff))"
proof -
  have wf: "length (d_A half2) = unat (n_slots half2)" and nz: "n_slots half2 \<noteq> 0"
    by (simp_all add: half2_def)
  have free: "\<exists>j < length (d_A half2). e_k (d_A half2 ! j) = 0xffffffff"
    by (rule exI [of _ 1]) (simp add: half2_def)
  from CompactDict_insert_terminates_iff [OF wf nz, of 0 2] free show ?thesis
    by blast
qed

lemma replicate_4: "replicate 4 x = [x, x, x, x]"
  by (simp add: numeral_eq_Suc)

text \<open>
  C5: every inserted key is found again by \<^verbatim>\<open>probe\<close>, with its value among the results.
  \<^verbatim>\<open>probe\<close> collects only the unbroken run of slots that hold the key, starting at the
  first of them. In a table of four slots, \<^verbatim>\<open>insert(0, 1)\<close>, \<^verbatim>\<open>insert(4, 2)\<close>, \<^verbatim>\<open>insert(0, 3)\<close>
  fill slots 0, 1 and 2 (both keys start at slot 0); the table is not full, and
  \<^verbatim>\<open>probe(0)\<close> returns the single value 1: the value 3, stored with key 0 behind the entry
  of key 4, is not returned.
\<close>

theorem CompactDict_probe_misses_value:
  "insert_all (CompactDict_new 4) [(0, 1), (4, 2), (0, 3)]
     = Some (Inr \<lparr>n_slots = 4,
                  d_A = [\<lparr>e_k = 0, e_v = 1\<rparr>, \<lparr>e_k = 4, e_v = 2\<rparr>, \<lparr>e_k = 0, e_v = 3\<rparr>,
                         \<lparr>e_k = 0xffffffff, e_v = 0\<rparr>]\<rparr>)
   \<and> probe_after (CompactDict_new 4) [(0, 1), (4, 2), (0, 3)] 0 = Some (Inr [1])"
  by (simp add: probe_after_def CompactDict_insert_def CompactDict_new_def start_slot_def
      insert_loop.simps next_slot_def CompactDict_probe_def probe_seek.simps
      probe_collect.simps replicate_4)

section \<open>Properties of the chain walker\<close>

lemma unat_succ_less:
  fixes i bound :: u64
  assumes "i < bound"
  shows "unat (i + 1) = unat i + 1" and "i + 1 \<le> bound"
proof -
  from assms have lt: "unat i < unat bound" by (simp add: word_less_nat_alt)
  have "unat bound < 2 ^ LENGTH(64)" by (rule unsigned_less)
  with lt have "unat i + unat (1 :: u64) < 2 ^ LENGTH(64)" by simp
  then have "unat (i + 1) = unat i + unat (1 :: u64)" by (simp only: unat_add_lem)
  then show u: "unat (i + 1) = unat i + 1" by simp
  with lt show "i + 1 \<le> bound" by (simp add: word_le_nat_alt)
qed

lemma chain_Suc: "chain Pb (Suc n) x = chain Pb n (iterate_once Pb x)"
  by (simp add: chain_def funpow_swap1)

lemma chain_0: "chain Pb 0 x = x"
  by (simp add: chain_def)

lemma gdp_loop_spec:
  assumes "gdp_loop Pb msk bound i (tmp, out, len) = (found, tmp', out', len')"
    and "i \<le> bound"
  shows "(found \<longrightarrow>
            (\<exists>n. 1 \<le> n \<and> n \<le> unat bound - unat i
               \<and> out' = chain Pb n tmp \<and> tmp' = chain Pb (n - 1) tmp
               \<and> len' = len + of_nat n
               \<and> is_distinguished_point (C_hash Pb out') msk
               \<and> (\<forall>j. 1 \<le> j \<and> j < n \<longrightarrow>
                      \<not> is_distinguished_point (C_hash Pb (chain Pb j tmp)) msk)))
       \<and> (\<not> found \<longrightarrow>
            (\<forall>j. 1 \<le> j \<and> j \<le> unat bound - unat i \<longrightarrow>
                      \<not> is_distinguished_point (C_hash Pb (chain Pb j tmp)) msk)
            \<and> len' = len + of_nat (unat bound - unat i))"
  using assms
proof (induction Pb msk bound i "(tmp, out, len)" arbitrary: tmp out len
    rule: gdp_loop.induct)
  case (1 Pb msk bound i tmp out len)
  let ?dp = "\<lambda>x. is_distinguished_point (C_hash Pb x) msk"
  show ?case
  proof (cases "i < bound")
    case False
    with "1.prems" have "i = bound" by simp
    with "1.prems"(1) show ?thesis by simp
  next
    case lt: True
    let ?o = "iterate_once Pb tmp"
    show ?thesis
    proof (cases "?dp ?o")
      case True
      with lt "1.prems"(1) have r: "found" "tmp' = tmp" "out' = ?o" "len' = len + 1"
        by (auto simp: Let_def)
      from lt have "1 \<le> unat bound - unat i" by (simp add: word_less_nat_alt)
      with r True show ?thesis
        by (intro conjI impI exI [of _ 1]) (simp_all add: chain_Suc chain_0)
    next
      case False
      with lt "1.prems"(1)
      have rec: "gdp_loop Pb msk bound (i + 1) (?o, tmp, len + 1) = (found, tmp', out', len')"
        by (simp add: Let_def)
      note u = unat_succ_less [OF lt]
      have IH: "(found \<longrightarrow>
            (\<exists>n. 1 \<le> n \<and> n \<le> unat bound - unat (i + 1)
               \<and> out' = chain Pb n ?o \<and> tmp' = chain Pb (n - 1) ?o
               \<and> len' = len + 1 + of_nat n
               \<and> ?dp out'
               \<and> (\<forall>j. 1 \<le> j \<and> j < n \<longrightarrow> \<not> ?dp (chain Pb j ?o))))
       \<and> (\<not> found \<longrightarrow>
            (\<forall>j. 1 \<le> j \<and> j \<le> unat bound - unat (i + 1) \<longrightarrow> \<not> ?dp (chain Pb j ?o))
            \<and> len' = len + 1 + of_nat (unat bound - unat (i + 1)))"
        using "1.hyps" [OF lt refl refl False rec u(2)] .
      from lt have ub: "unat bound - unat i = Suc (unat bound - unat (i + 1))"
        by (simp add: u(1) word_less_nat_alt)
      have step: "\<not> ?dp (chain Pb j tmp)"
        if "1 \<le> j" "j < Suc n" "\<forall>j. 1 \<le> j \<and> j < n \<longrightarrow> \<not> ?dp (chain Pb j ?o)" for j n
      proof (cases j)
        case 0
        with that show ?thesis by simp
      next
        case (Suc j')
        have eq: "chain Pb j tmp = chain Pb j' ?o" by (simp only: Suc chain_Suc)
        show ?thesis
        proof (cases "j' = 0")
          case True
          with eq False show ?thesis by (simp add: chain_0)
        next
          case False
          with Suc that(2) have "1 \<le> j' \<and> j' < n" by simp
          with that(3) have "\<not> ?dp (chain Pb j' ?o)" by blast
          with eq show ?thesis by simp
        qed
      qed
      show ?thesis
      proof (cases found)
        case True
        with IH obtain n where n: "1 \<le> n" "n \<le> unat bound - unat (i + 1)"
          "out' = chain Pb n ?o" "tmp' = chain Pb (n - 1) ?o" "len' = len + 1 + of_nat n"
          "?dp out'" "\<forall>j. 1 \<le> j \<and> j < n \<longrightarrow> \<not> ?dp (chain Pb j ?o)"
          by blast
        from n(1) obtain n' where n': "n = Suc n'" by (cases n) auto
        have "1 \<le> Suc n" by simp
        moreover have "Suc n \<le> unat bound - unat i" using n(2) ub by simp
        moreover have "out' = chain Pb (Suc n) tmp" using n(3) by (simp add: chain_Suc)
        moreover have "tmp' = chain Pb (Suc n - 1) tmp"
          using n(4) n' by (simp add: chain_Suc)
        moreover have "len' = len + of_nat (Suc n)" using n(5) by simp
        moreover have "\<forall>j. 1 \<le> j \<and> j < Suc n \<longrightarrow> \<not> ?dp (chain Pb j tmp)"
          using step n(7) by blast
        ultimately show ?thesis using True n(6) by blast
      next
        case nf: False
        with IH have a: "\<forall>j. 1 \<le> j \<and> j < Suc (unat bound - unat (i + 1)) \<longrightarrow> \<not> ?dp (chain Pb j ?o)"
          and l: "len' = len + 1 + of_nat (unat bound - unat (i + 1))"
          by (auto simp: less_Suc_eq_le)
        have "\<forall>j. 1 \<le> j \<and> j \<le> unat bound - unat i \<longrightarrow> \<not> ?dp (chain Pb j tmp)"
          unfolding ub using step [OF _ _ a] by (auto simp: less_Suc_eq_le)
        moreover have "len' = len + of_nat (unat bound - unat i)"
          unfolding ub using l by simp
        ultimately show ?thesis using nf by blast
      qed
    qed
  qed
qed

lemma unat_bound_40:
  assumes "d \<le> 58"
  shows "unat (40 * push_bit d 1 :: u64) = 40 * 2 ^ d"
proof -
  have "(2::nat) ^ d \<le> 2 ^ 58" by (rule power_increasing) (use assms in simp_all)
  then have "(40::nat) * 2 ^ d < 2 ^ 64" by simp
  moreover have "(40 * push_bit d 1 :: u64) = of_nat (40 * 2 ^ d)"
    by (simp add: push_bit_of_1)
  ultimately show ?thesis by (simp only: unat_of_nat) simp
qed

text \<open>
  C2, amended: for every problem (whose embedding is the version), every starting point
  \<open>s\<close> and every difficulty \<^verbatim>\<open>d <= 58\<close>, with the chain-length counter starting at 0:
  the walker applies the iteration at most \<^verbatim>\<open>40 * 2^d\<close> times; when it returns true with
  the end \<open>e\<close> in \<^verbatim>\<open>*out_pt\<close> and the counter at \<open>L\<close>, then \<^verbatim>\<open>hash(e) & (2^d - 1) == 0\<close>,
  \<^verbatim>\<open>1 <= L <= 40 * 2^d\<close>, \<open>e\<close> is the \<open>L\<close>-th iterate of \<open>s\<close> and no earlier iterate (from
  the first on) is distinguished; and it returns false exactly when none of the first
  \<^verbatim>\<open>40 * 2^d\<close> iterates is distinguished.
\<close>

theorem generate_dist_point_spec:
  assumes "difficulty \<le> 58"
    and "generate_dist_point Pb s bufs 0 difficulty = (found, tmp', e, L)"
  shows "(found \<longrightarrow>
            C_hash Pb e AND (2 ^ difficulty - 1) = 0
            \<and> 1 \<le> unat L \<and> unat L \<le> 40 * 2 ^ difficulty
            \<and> e = chain Pb (unat L) s
            \<and> (\<forall>j. 1 \<le> j \<and> j < unat L \<longrightarrow>
                   C_hash Pb (chain Pb j s) AND (2 ^ difficulty - 1) \<noteq> 0))
       \<and> (\<not> found \<longleftrightarrow>
            (\<forall>j. 1 \<le> j \<and> j \<le> 40 * 2 ^ difficulty \<longrightarrow>
                   C_hash Pb (chain Pb j s) AND (2 ^ difficulty - 1) \<noteq> 0))"
proof -
  let ?msk = "push_bit difficulty 1 - 1 :: u64" and ?bound = "40 * push_bit difficulty 1 :: u64"
  have dp: "is_distinguished_point x ?msk \<longleftrightarrow> x AND (2 ^ difficulty - 1) = 0" for x
    by (auto simp: is_distinguished_point_def push_bit_of_1 and.commute)
  have ub: "unat ?bound - unat (0 :: u64) = 40 * 2 ^ difficulty"
    using unat_bound_40 [OF assms(1)] by simp
  from assms(2) have loop: "gdp_loop Pb ?msk ?bound 0 (s, snd bufs, 0) = (found, tmp', e, L)"
    by (simp add: generate_dist_point_def)
  note spec = gdp_loop_spec [OF loop, unfolded ub dp, simplified]
  have small: "unat (of_nat n :: u64) = n" if "n \<le> 40 * 2 ^ difficulty" for n
  proof -
    have "(2::nat) ^ difficulty \<le> 2 ^ 58" by (rule power_increasing) (use assms(1) in simp_all)
    then have "(40::nat) * 2 ^ difficulty < 2 ^ 64" by simp
    with that have "n < 2 ^ 64" by simp
    then show ?thesis by (simp add: unat_of_nat)
  qed
  show ?thesis
  proof (cases found)
    case True
    with spec obtain n where n: "1 \<le> n" "n \<le> 40 * 2 ^ difficulty" "e = chain Pb n s"
      "L = of_nat n" "C_hash Pb e AND (2 ^ difficulty - 1) = 0"
      "\<forall>j. 1 \<le> j \<and> j < n \<longrightarrow> C_hash Pb (chain Pb j s) AND (2 ^ difficulty - 1) \<noteq> 0"
      by auto
    have L: "unat L = n" using n(4) small [OF n(2)] by simp
    have "\<not> (\<forall>j. 1 \<le> j \<and> j \<le> 40 * 2 ^ difficulty \<longrightarrow>
              C_hash Pb (chain Pb j s) AND (2 ^ difficulty - 1) \<noteq> 0)"
      using n(1,2,3,5) by blast
    with True n L show ?thesis by simp
  next
    case False
    with spec show ?thesis by simp
  qed
qed

text \<open>
  C2, as stated, for every difficulty: at \<^verbatim>\<open>d = 61\<close> the 64-bit bound
  \<^verbatim>\<open>40 * (1LL << 61)\<close> wraps to 0, the loop body never runs and the walker returns false,
  although the first iterate of the start is distinguished.
\<close>

theorem generate_dist_point_overflow_counterexample:
  "fst (generate_dist_point toy_half 1 (0, 0) 0 61) = False
   \<and> C_hash toy_half (chain toy_half 1 1) AND (2 ^ 61 - 1) = 0"
  by (simp add: generate_dist_point_def gdp_loop.simps chain_def iterate_once_def toy_half_def)

lemma gdp_toy: "generate_dist_point toy_half 7 (0, 0) 0 1 = (True, 1, 0, 3)"
  by (simp add: generate_dist_point_def gdp_loop.simps iterate_once_def toy_half_def
        is_distinguished_point_def Let_def)

theorem generate_dist_point_spec_witness:
  "generate_dist_point toy_half 7 (0, 0) 0 1 = (True, 1, 0, 3)
   \<and> C_hash toy_half 0 AND (2 ^ 1 - 1) = 0
   \<and> unat (3 :: u64) \<le> 40 * 2 ^ 1
   \<and> (0 :: nat) = chain toy_half (unat (3 :: u64)) 7
   \<and> C_hash toy_half (chain toy_half 2 7) AND (2 ^ 1 - 1) \<noteq> 0"
proof -
  have d: "(1 :: nat) \<le> 58" by simp
  from generate_dist_point_spec [OF d gdp_toy] gdp_toy show ?thesis by simp
qed

section \<open>Properties of the collision resolver\<close>

lemma chain_add: "chain Pb (a + b) x = chain Pb a (chain Pb b x)"
  by (simp add: chain_def funpow_add)

lemma chain_numeral:
  "chain Pb (numeral k) x = chain Pb (pred_numeral k) (iterate_once Pb x)"
  by (simp add: numeral_eq_Suc chain_Suc)

lemma walk_advance_spec:
  "walk_advance Pb len_a len_b (inp, out) = (r, inp', out') \<Longrightarrow>
     r = min len_a len_b \<and> inp' = chain Pb (len_a - len_b) inp"
proof (induction Pb len_a len_b "(inp, out)" arbitrary: inp out rule: walk_advance.induct)
  case (1 Pb len_a len_b inp out)
  show ?case
  proof (cases "len_a > len_b")
    case True
    with "1.prems" have "walk_advance Pb (len_a - 1) len_b (iterate_once Pb inp, inp) = (r, inp', out')"
      by simp
    from "1.hyps" [OF True this]
    have "r = min (len_a - 1) len_b" and "inp' = chain Pb (len_a - 1 - len_b) (iterate_once Pb inp)"
      by simp_all
    moreover from True have "len_a - len_b = Suc (len_a - 1 - len_b)" by simp
    ultimately show ?thesis using True by (simp add: chain_Suc)
  next
    case False
    with "1.prems" show ?thesis by (simp add: chain_0)
  qed
qed

lemma walk_sync_spec:
  assumes "i + t < len"
    and "C_is_equal Pb (chain Pb (Suc t) inp0) (chain Pb (Suc t) inp1)"
    and "\<forall>t' < t. \<not> C_is_equal Pb (chain Pb (Suc t') inp0) (chain Pb (Suc t') inp1)"
  shows "walk_sync Pb len i (inp0, out0, inp1, out1) =
           (True, chain Pb t inp0, chain Pb (Suc t) inp0, chain Pb t inp1, chain Pb (Suc t) inp1)"
  using assms
proof (induction t arbitrary: i inp0 out0 inp1 out1)
  case 0
  then show ?case by (simp add: chain_Suc chain_0 Let_def)
next
  case (Suc t)
  let ?o0 = "iterate_once Pb inp0" and ?o1 = "iterate_once Pb inp1"
  from Suc.prems(3) have "\<not> C_is_equal Pb (chain Pb (Suc 0) inp0) (chain Pb (Suc 0) inp1)"
    by blast
  then have ne: "\<not> C_is_equal Pb ?o0 ?o1"
    by (simp add: chain_Suc chain_0)
  have i: "i < len" using Suc.prems(1) by simp
  have "walk_sync Pb len (i + 1) (?o0, inp0, ?o1, inp1) =
          (True, chain Pb t ?o0, chain Pb (Suc t) ?o0, chain Pb t ?o1, chain Pb (Suc t) ?o1)"
  proof (rule Suc.IH)
    show "i + 1 + t < len" using Suc.prems(1) by simp
    show "C_is_equal Pb (chain Pb (Suc t) ?o0) (chain Pb (Suc t) ?o1)"
      using Suc.prems(2) by (simp only: chain_Suc)
    show "\<forall>t' < t. \<not> C_is_equal Pb (chain Pb (Suc t') ?o0) (chain Pb (Suc t') ?o1)"
    proof (intro allI impI)
      fix t' assume "t' < t"
      then have "Suc t' < Suc t" by simp
      with Suc.prems(3) have "\<not> C_is_equal Pb (chain Pb (Suc (Suc t')) inp0) (chain Pb (Suc (Suc t')) inp1)"
        by blast
      then show "\<not> C_is_equal Pb (chain Pb (Suc t') ?o0) (chain Pb (Suc t') ?o1)"
        by (simp add: chain_Suc)
    qed
  qed
  moreover have "chain Pb t ?o0 = chain Pb (Suc t) inp0" "chain Pb (Suc t) ?o0 = chain Pb (Suc (Suc t)) inp0"
    "chain Pb t ?o1 = chain Pb (Suc t) inp1" "chain Pb (Suc t) ?o1 = chain Pb (Suc (Suc t)) inp1"
    by (simp_all only: chain_Suc)
  ultimately show ?case using i ne by (simp add: Let_def)
qed

text \<open>
  C3, amended: for two inputs with chain lengths \<^verbatim>\<open>len0 >= 1\<close> and \<^verbatim>\<open>len1 >= 1\<close> whose chains
  end at the same point (\<^verbatim>\<open>is_equal\<close> of the \<open>len0\<close>-th iterate of \<open>inp0\<close> and the \<open>len1\<close>-th of
  \<open>inp1\<close>), \<^verbatim>\<open>walk\<close> moves the longer chain forward by the difference of the lengths, then
  steps both together, and returns true at the first synchronized step \<open>t\<close> (below the
  shorter length) whose two outputs agree: on return the input buffers hold the two
  points before that step and the output buffers their images, which agree, and no
  earlier synchronized step gave equal outputs.
\<close>

theorem walk_finds_first_agreement:
  assumes "1 \<le> len0" and "1 \<le> len1"
    and "C_is_equal Pb (chain Pb len0 inp0) (chain Pb len1 inp1)"
  shows "\<exists>t < min len0 len1.
           walk Pb (inp0, out0) len0 (inp1, out1) len1 =
             (True, chain Pb (t + (len0 - len1)) inp0, chain Pb (Suc t + (len0 - len1)) inp0,
                    chain Pb (t + (len1 - len0)) inp1, chain Pb (Suc t + (len1 - len0)) inp1)
           \<and> C_is_equal Pb (chain Pb (Suc t + (len0 - len1)) inp0)
                            (chain Pb (Suc t + (len1 - len0)) inp1)
           \<and> (\<forall>t' < t. \<not> C_is_equal Pb (chain Pb (Suc t' + (len0 - len1)) inp0)
                                         (chain Pb (Suc t' + (len1 - len0)) inp1))"
proof -
  let ?m = "min len0 len1"
  let ?a = "chain Pb (len0 - len1) inp0" and ?b = "chain Pb (len1 - len0) inp1"
  let ?P = "\<lambda>t. C_is_equal Pb (chain Pb (Suc t) ?a) (chain Pb (Suc t) ?b)"
  obtain m' where m': "?m = Suc m'" using assms(1,2) by (cases ?m) auto
  have "Suc m' + (len0 - len1) = len0" "Suc m' + (len1 - len0) = len1"
    using m' by (simp_all add: min_def split: if_splits)
  then have "chain Pb (Suc m') ?a = chain Pb len0 inp0" "chain Pb (Suc m') ?b = chain Pb len1 inp1"
    by (simp_all add: chain_add [symmetric] del: add_Suc)
  then have Pm: "?P m'" using assms(3) by simp
  define t where "t = (LEAST t. ?P t)"
  have Pt: "?P t" unfolding t_def using Pm by (rule LeastI)
  have "t \<le> m'" unfolding t_def using Pm by (rule Least_le)
  then have tm: "t < ?m" using m' by simp
  have first: "\<forall>t' < t. \<not> ?P t'" unfolding t_def using not_less_Least by blast
  obtain r0 a out0' where adv0: "walk_advance Pb len0 len1 (inp0, out0) = (r0, a, out0')"
    by (cases "walk_advance Pb len0 len1 (inp0, out0)") auto
  from walk_advance_spec [OF this] have a: "r0 = ?m" "a = ?a" by simp_all
  obtain r1 b out1' where adv1: "walk_advance Pb len1 r0 (inp1, out1) = (r1, b, out1')"
    by (cases "walk_advance Pb len1 r0 (inp1, out1)") auto
  from walk_advance_spec [OF this] have b: "b = chain Pb (len1 - ?m) inp1" using a by simp
  have "len1 - ?m = len1 - len0" by (simp add: min_def)
  with b have b': "b = ?b" by simp
  have "walk Pb (inp0, out0) len0 (inp1, out1) len1 = walk_sync Pb ?m 0 (?a, out0', ?b, out1')"
    using adv0 adv1 a b' by (simp add: walk_def)
  also have "\<dots> = (True, chain Pb t ?a, chain Pb (Suc t) ?a, chain Pb t ?b, chain Pb (Suc t) ?b)"
    using tm Pt first by (intro walk_sync_spec) simp_all
  finally have "walk Pb (inp0, out0) len0 (inp1, out1) len1 =
      (True, chain Pb (t + (len0 - len1)) inp0, chain Pb (Suc t + (len0 - len1)) inp0,
             chain Pb (t + (len1 - len0)) inp1, chain Pb (Suc t + (len1 - len0)) inp1)"
    by (simp only: chain_add)
  moreover have "C_is_equal Pb (chain Pb (Suc t + (len0 - len1)) inp0)
                            (chain Pb (Suc t + (len1 - len0)) inp1)"
    using Pt by (simp only: chain_add)
  moreover have "\<forall>t' < t. \<not> C_is_equal Pb (chain Pb (Suc t' + (len0 - len1)) inp0)
                                         (chain Pb (Suc t' + (len1 - len0)) inp1)"
    using first by (simp only: chain_add)
  ultimately show ?thesis using tm by blast
qed

text \<open>
  C3, as stated, for all chain lengths: with both lengths 0 and the same input the two
  chains end at the same point, and \<^verbatim>\<open>walk\<close> returns false, its loop running
  \<^verbatim>\<open>min(len0, len1) = 0\<close> times.
\<close>

theorem walk_zero_length_counterexample:
  "C_is_equal toy_half (chain toy_half 0 5) (chain toy_half 0 5)
   \<and> walk toy_half (5, 0) 0 (5, 0) 0 = (False, 5, 0, 5, 0)"
  by (simp add: walk_def chain_def toy_half_def)

lemma walk_toy: "walk toy_half (12, 0) 3 (7, 0) 2 = (True, 6, 3, 7, 3)"
  by (simp add: walk_def iterate_once_def toy_half_def Let_def)

theorem walk_finds_first_agreement_witness:
  "C_is_equal toy_half (chain toy_half 3 12) (chain toy_half 2 7)
   \<and> (\<exists>t < min 3 2.
         walk toy_half (12, 0) 3 (7, 0) 2 =
           (True, chain toy_half (t + (3 - 2)) 12, chain toy_half (Suc t + (3 - 2)) 12,
                  chain toy_half (t + (2 - 3)) 7, chain toy_half (Suc t + (2 - 3)) 7))
   \<and> walk toy_half (12, 0) 3 (7, 0) 2 = (True, 6, 3, 7, 3)"
proof -
  have eq: "C_is_equal toy_half (chain toy_half 3 12) (chain toy_half 2 7)"
    by (simp add: chain_numeral chain_Suc chain_0 iterate_once_def toy_half_def)
  have l: "(1::nat) \<le> 3" "(1::nat) \<le> 2" by simp_all
  from walk_finds_first_agreement [OF l eq, of 0 0] eq walk_toy show ?thesis
    by blast
qed

section \<open>Properties of the per-version loop\<close>

lemma version_loop_all_found:
  assumes "a \<le> K"
  shows "version_loop (count_attempt (\<lambda>k. True)) count_on_dp (2 * K) (2 * a) (a, a) = (K, K)"
  using assms
proof (induction "K - a" arbitrary: a)
  case 0
  then show ?case by (subst version_loop.simps) simp
next
  case (Suc d)
  then have lt: "2 * a < 2 * K" and a: "Suc a \<le> K" "d = K - Suc a" by simp_all
  have "version_loop (count_attempt (\<lambda>k. True)) count_on_dp (2 * K) (2 * a) (a, a)
        = version_loop (count_attempt (\<lambda>k. True)) count_on_dp (2 * K) (2 * Suc a) (Suc a, Suc a)"
    using lt by (subst version_loop.simps) (simp add: count_attempt_def count_on_dp_def)
  also have "\<dots> = (K, K)" using Suc.hyps(1) [OF a(2) a(1)] .
  finally show ?case .
qed

lemma version_loop_count_bounds:
  assumes "version_loop (count_attempt found) count_on_dp bound n (a, c) = (a', c')"
    and "n = a + c" and "c \<le> a" and "a \<le> bound" and "2 * c \<le> bound + 1"
  shows "c' \<le> a' \<and> a' \<le> bound \<and> 2 * c' \<le> bound + 1"
  using assms
proof (induction "bound - n" arbitrary: n a c rule: less_induct)
  case less
  show ?case
  proof (cases "n < bound")
    case False
    then have "version_loop (count_attempt found) count_on_dp bound n (a, c) = (a, c)"
      by (subst version_loop.simps) simp
    with less.prems show ?thesis by simp
  next
    case lt: True
    show ?thesis
    proof (cases "found a")
      case True
      with lt have "version_loop (count_attempt found) count_on_dp bound n (a, c)
          = version_loop (count_attempt found) count_on_dp bound (n + 1 + 1) (a + 1, c + 1)"
        by (subst version_loop.simps) (simp add: count_attempt_def count_on_dp_def)
      with less.prems(1)
      have rec: "version_loop (count_attempt found) count_on_dp bound (n + 1 + 1) (a + 1, c + 1) = (a', c')"
        by simp
      show ?thesis
      proof (rule less.hyps [OF _ rec])
        show "bound - (n + 1 + 1) < bound - n" using lt by simp
      qed (use less.prems lt in simp_all)
    next
      case False
      with lt have "version_loop (count_attempt found) count_on_dp bound n (a, c)
          = version_loop (count_attempt found) count_on_dp bound (n + 1) (a + 1, c)"
        by (subst version_loop.simps) (simp add: count_attempt_def count_on_dp_def)
      with less.prems(1)
      have rec: "version_loop (count_attempt found) count_on_dp bound (n + 1) (a + 1, c) = (a', c')"
        by simp
      show ?thesis
      proof (rule less.hyps [OF _ rec])
        show "bound - (n + 1) < bound - n" using lt by simp
      qed (use less.prems lt in simp_all)
    qed
  qed
qed

text \<open>
  C7: a version admits \<^verbatim>\<open>10 * S\<close> successful distinguished-point generations. The loop
  counter is incremented twice for every attempt that finds a distinguished point (line
  467 and the loop header), once for every attempt that fails. When every attempt
  succeeds, a version therefore makes \<^verbatim>\<open>5 * S\<close> attempts and hands \<^verbatim>\<open>5 * S\<close> points to the
  dictionary, not \<^verbatim>\<open>10 * S\<close>; whatever the attempts find, a version stores at most
  \<^verbatim>\<open>5 * S\<close> points, in at most \<^verbatim>\<open>10 * S\<close> attempts.
\<close>

theorem version_loop_half_budget:
  "version_loop (count_attempt (\<lambda>k. True)) count_on_dp (10 * S) 0 (0, 0) = (5 * S, 5 * S)
   \<and> snd (version_loop (count_attempt found) count_on_dp (10 * S) 0 (0, 0)) \<le> 5 * S
   \<and> fst (version_loop (count_attempt found) count_on_dp (10 * S) 0 (0, 0)) \<le> 10 * S"
proof -
  have "version_loop (count_attempt (\<lambda>k. True)) count_on_dp (2 * (5 * S)) (2 * 0) (0, 0) = (5 * S, 5 * S)"
    by (rule version_loop_all_found) simp
  then have 1: "version_loop (count_attempt (\<lambda>k. True)) count_on_dp (10 * S) 0 (0, 0) = (5 * S, 5 * S)"
    by simp
  obtain a' c' where r: "version_loop (count_attempt found) count_on_dp (10 * S) 0 (0, 0) = (a', c')"
    by (cases "version_loop (count_attempt found) count_on_dp (10 * S) 0 (0, 0)") auto
  from version_loop_count_bounds [OF r] have "a' \<le> 10 * S" "2 * c' \<le> 10 * S + 1" by simp_all
  then have "c' \<le> 5 * S" "a' \<le> 10 * S" by simp_all
  with 1 r show ?thesis by simp
qed

section \<open>Properties of the naive distributed claw search\<close>

lemma sender_pushes_phase1:
  assumes "(x, z, t) \<in> set (sender_pushes Pb 1 local_rank n_send n_recv)"
  shows "z = pb_g Pb x"
  using assms by (auto simp: sender_pushes_def Let_def)

lemma probe_keys_result:
  "r_result (probe_keys Pb x z keys st) =
     r_result st @ map (\<lambda>y. (y, x)) (filter (\<lambda>y. z = pb_f Pb y \<and> pb_is_good_pair Pb y x) keys)"
  by (induction keys arbitrary: st) (auto simp: Let_def)

lemma probe_keys_failures:
  "r_collision_failures (probe_keys Pb x z keys st) =
     r_collision_failures st + length (filter (\<lambda>y. z \<noteq> pb_f Pb y) keys)"
  by (induction keys arbitrary: st) (auto simp: Let_def)

lemma receive_item_phase1:
  assumes "receive_item Pb 1 st (x, z) = Some (Inr st')" and "z = pb_g Pb x"
    and "\<forall>p \<in> set (r_result st). pb_f Pb (fst p) = pb_g Pb (snd p) \<and> pb_is_good_pair Pb (fst p) (snd p)"
  shows "\<forall>p \<in> set (r_result st'). pb_f Pb (fst p) = pb_g Pb (snd p) \<and> pb_is_good_pair Pb (fst p) (snd p)"
proof -
  from assms(1) obtain keys where "st' = probe_keys Pb x z keys st"
    by (auto simp: receive_item_def Let_def split: option.splits sum.splits if_splits)
  then have "r_result st' = r_result st
      @ map (\<lambda>y. (y, x)) (filter (\<lambda>y. z = pb_f Pb y \<and> pb_is_good_pair Pb y x) keys)"
    by (simp add: probe_keys_result)
  then have "set (r_result st') \<subseteq> set (r_result st)
      \<union> {p. pb_f Pb (fst p) = pb_g Pb (snd p) \<and> pb_is_good_pair Pb (fst p) (snd p)}"
    using assms(2) by auto
  with assms(3) show ?thesis by blast
qed

lemma receive_all_phase1:
  assumes "receive_all Pb 1 st items = Some (Inr st')"
    and "\<forall>xz \<in> set items. snd xz = pb_g Pb (fst xz)"
    and "\<forall>p \<in> set (r_result st). pb_f Pb (fst p) = pb_g Pb (snd p) \<and> pb_is_good_pair Pb (fst p) (snd p)"
  shows "\<forall>p \<in> set (r_result st'). pb_f Pb (fst p) = pb_g Pb (snd p) \<and> pb_is_good_pair Pb (fst p) (snd p)"
  using assms
proof (induction items arbitrary: st)
  case Nil
  then show ?case by simp
next
  case (Cons xz items)
  from Cons.prems(1) obtain st1 where 1: "receive_item Pb 1 st xz = Some (Inr st1)"
    and 2: "receive_all Pb 1 st1 items = Some (Inr st')"
    by (auto split: option.splits sum.splits)
  from 1 have "receive_item Pb 1 st (fst xz, snd xz) = Some (Inr st1)" by simp
  from receive_item_phase1 [OF this _ Cons.prems(3)] Cons.prems(2)
  have "\<forall>p \<in> set (r_result st1). pb_f Pb (fst p) = pb_g Pb (snd p) \<and> pb_is_good_pair Pb (fst p) (snd p)"
    by simp
  from Cons.IH [OF 2 _ this] Cons.prems(2) show ?case by simp
qed

lemma receive_all_phase0_result:
  assumes "receive_all Pb 0 st items = Some (Inr st')" and "r = r_result st"
  shows "r_result st' = r"
  using assms
proof (induction items arbitrary: st)
  case Nil
  then show ?case by simp
next
  case (Cons xz items)
  from Cons.prems(1) obtain st1 where 1: "receive_item Pb 0 st xz = Some (Inr st1)"
    and 2: "receive_all Pb 0 st1 items = Some (Inr st')"
    by (auto split: option.splits sum.splits)
  from 1 have "r_result st1 = r_result st"
    by (auto simp: receive_item_def Let_def split: option.splits sum.splits)
  with Cons.IH [OF 2] Cons.prems(2) show ?case by simp
qed

lemma pairs_of_flatten: "pairs_of (flatten_pairs r @ tmp) = r @ pairs_of tmp"
  by (induction r) (simp_all add: flatten_pairs_def)

lemma allgather_result_concat: "allgather_result results = concat results"
proof -
  have "pairs_of (concat (map flatten_pairs results) @ tmp) = concat results @ pairs_of tmp" for tmp
    by (induction results arbitrary: tmp) (simp_all add: pairs_of_flatten)
  from this [of "[]"] show ?thesis by (simp add: allgather_result_def)
qed

text \<open>
  C4: \<open>runs\<close> lists the ranks, each with its dictionary, the pairs it receives in phase
  0 and in phase 1, and its \<^verbatim>\<open>result\<close> vector after phase 1. When every pair received in
  phase 1 was pushed by a sender (which computes \<^verbatim>\<open>z = g(x)\<close>), every pair \<^verbatim>\<open>(x0, x1)\<close> of the
  gathered result satisfies \<^verbatim>\<open>f(x0) == g(x1)\<close> and \<^verbatim>\<open>is_good_pair(x0, x1)\<close>. For one received
  \<^verbatim>\<open>(x, z)\<close> and the values \<open>keys\<close> of the probe, the pairs added are exactly \<^verbatim>\<open>(y, x)\<close> for the
  \<open>y\<close> with \<^verbatim>\<open>z == f(y)\<close> and \<^verbatim>\<open>is_good_pair(y, x)\<close>, and \<^verbatim>\<open>collision_failure\<close> is counted once
  for every \<open>y\<close> with \<^verbatim>\<open>z != f(y)\<close>.
\<close>

theorem naive_result_sound:
  assumes "\<forall>run \<in> set runs.
             (\<forall>xz \<in> set (fst (snd (snd run))).
                \<exists>local_rank t. (fst xz, snd xz, t) \<in> set (sender_pushes Pb 1 local_rank n_send n_recv))
             \<and> rank_run Pb (fst run) (fst (snd run)) (fst (snd (snd run))) = Some (Inr (snd (snd (snd run))))"
  shows "(\<forall>p \<in> set (allgather_result (map (\<lambda>run. snd (snd (snd run))) runs)).
            pb_f Pb (fst p) = pb_g Pb (snd p) \<and> pb_is_good_pair Pb (fst p) (snd p))
       \<and> r_result (probe_keys Pb x z keys st) =
           r_result st @ map (\<lambda>y. (y, x)) (filter (\<lambda>y. z = pb_f Pb y \<and> pb_is_good_pair Pb y x) keys)
       \<and> r_collision_failures (probe_keys Pb x z keys st) =
           r_collision_failures st + length (filter (\<lambda>y. z \<noteq> pb_f Pb y) keys)"
proof -
  have "pb_f Pb (fst p) = pb_g Pb (snd p) \<and> pb_is_good_pair Pb (fst p) (snd p)"
    if run: "run \<in> set runs" and p: "p \<in> set (snd (snd (snd run)))" for run p
  proof -
    obtain d items0 items1 res where r: "run = (d, items0, items1, res)"
      by (cases run) auto
    from assms run r have sent: "\<forall>xz \<in> set items1.
          \<exists>local_rank t. (fst xz, snd xz, t) \<in> set (sender_pushes Pb 1 local_rank n_send n_recv)"
      and rr: "rank_run Pb d items0 items1 = Some (Inr res)"
      by auto
    from sent have g: "\<forall>xz \<in> set items1. snd xz = pb_g Pb (fst xz)"
      using sender_pushes_phase1 by blast
    from rr obtain st st' where
      "receive_all Pb 1 (st\<lparr>r_collision_failures := 0, r_collisions := 0\<rparr>) items1 = Some (Inr st')"
      and "receive_all Pb 0 \<lparr>r_dict = d, r_result = [], r_collision_failures = 0, r_collisions = 0\<rparr> items0 = Some (Inr st)"
      and res: "res = r_result st'"
      by (auto simp: rank_run_def split: option.splits sum.splits)
    then have st': "receive_all Pb 1 (st\<lparr>r_collision_failures := 0, r_collisions := 0\<rparr>) items1 = Some (Inr st')"
      and st: "receive_all Pb 0 \<lparr>r_dict = d, r_result = [], r_collision_failures = 0, r_collisions = 0\<rparr> items0 = Some (Inr st)"
      by simp_all
    have "r_result st = []" using receive_all_phase0_result [OF st refl] by simp
    then have "\<forall>p \<in> set (r_result (st\<lparr>r_collision_failures := 0, r_collisions := 0\<rparr>)).
        pb_f Pb (fst p) = pb_g Pb (snd p) \<and> pb_is_good_pair Pb (fst p) (snd p)"
      by simp
    from receive_all_phase1 [OF st' g this] p r res show ?thesis by simp
  qed
  then show ?thesis
    by (auto simp: allgather_result_concat probe_keys_result probe_keys_failures)
qed

lemma replicate_5: "replicate 5 x = [x, x, x, x, x]"
  by (simp add: numeral_eq_Suc)

lemma toy_naive_pushes:
  "sender_pushes toy_naive 1 0 1 1 = [(0, 3, 0), (1, 2, 0), (2, 1, 0), (3, 0, 0)]"
  by (simp add: sender_pushes_def toy_naive_def Let_def upt_rec)

lemma toy_naive_run:
  "rank_run toy_naive (CompactDict_new 5) [(0, 0), (1, 1), (2, 2), (3, 3)]
     [(0, 3), (1, 2), (2, 1), (3, 0)] = Some (Inr [(1, 2)])"
  by (simp add: rank_run_def receive_item_def Let_def toy_naive_def
      CompactDict_insert_def CompactDict_new_def start_slot_def insert_loop.simps next_slot_def
      CompactDict_probe_def probe_seek.simps probe_collect.simps replicate_5)

theorem naive_result_sound_witness:
  "rank_run toy_naive (CompactDict_new 5) [(0, 0), (1, 1), (2, 2), (3, 3)]
     [(0, 3), (1, 2), (2, 1), (3, 0)] = Some (Inr [(1, 2)])
   \<and> allgather_result [[], [(1, 2)]] = [(1, 2)]
   \<and> pb_f toy_naive 1 = pb_g toy_naive 2 \<and> pb_is_good_pair toy_naive 1 2"
proof -
  let ?items1 = "[(0, 3), (1, 2), (2, 1), (3, 0)] :: (u64 \<times> u64) list"
  let ?runs = "[(CompactDict_new 0, [], [], []),
                (CompactDict_new 5, [(0, 0), (1, 1), (2, 2), (3, 3)], ?items1, [(1, 2)])]
               :: (CompactDict \<times> (u64 \<times> u64) list \<times> (u64 \<times> u64) list \<times> (u64 \<times> u64) list) list"
  have sent: "\<forall>xz \<in> set ?items1.
      \<exists>local_rank t. (fst xz, snd xz, t) \<in> set (sender_pushes toy_naive 1 local_rank 1 1)"
  proof
    fix xz assume "xz \<in> set ?items1"
    then have "(fst xz, snd xz, 0) \<in> set (sender_pushes toy_naive 1 0 1 1)"
      unfolding toy_naive_pushes by auto
    then show "\<exists>local_rank t. (fst xz, snd xz, t) \<in> set (sender_pushes toy_naive 1 local_rank 1 1)"
      by blast
  qed
  have idle: "rank_run toy_naive (CompactDict_new 0) [] [] = Some (Inr [])"
    by (simp add: rank_run_def)
  have hyp: "\<forall>run \<in> set ?runs.
             (\<forall>xz \<in> set (fst (snd (snd run))).
                \<exists>local_rank t. (fst xz, snd xz, t) \<in> set (sender_pushes toy_naive 1 local_rank 1 1))
             \<and> rank_run toy_naive (fst run) (fst (snd run)) (fst (snd (snd run)))
                 = Some (Inr (snd (snd (snd run))))"
    using sent idle toy_naive_run by simp
  have g: "allgather_result [[], [(1, 2)]] = [(1, 2)]"
    by (simp add: allgather_result_def flatten_pairs_def)
  from naive_result_sound [OF hyp] g
  have "pb_f toy_naive (fst (1, 2)) = pb_g toy_naive (snd (1, 2))
        \<and> pb_is_good_pair toy_naive (fst (1, 2)) (snd (1, 2))"
    by simp
  with toy_naive_run g show ?thesis by simp
qed

section \<open>The pair returned by the engines\<close>

lemma toy_cycle_simps:
  "iterate_once toy_cycle x = (if x = 1 then 3 else x + 1)"
  "C_hash toy_cycle x = 0"
  "C_randomize toy_cycle x r = ((x + 1) mod 5, r)"
  "C_is_equal toy_cycle x y = (x = y)"
  "f_eq_g toy_cycle"
  "send_C_to_A toy_cycle x = x"
  "send_C_to_B toy_cycle x = x"
  "update_embedding toy_cycle r = ((\<lambda>x. x), (\<lambda>x. x), r)"
  "toy_cycle\<lparr>send_C_to_A := (\<lambda>x. x), send_C_to_B := (\<lambda>x. x)\<rparr> = toy_cycle"
  by (simp_all add: toy_cycle_def iterate_once_def)

lemma gdp_toy_cycle:
  "generate_dist_point toy_cycle x (a, b) 0 9 = (True, x, (if x = 1 then 3 else x + 1), 1)"
  by (simp add: generate_dist_point_def gdp_loop.simps toy_cycle_simps
      is_distinguished_point_def Let_def)

lemma attempt_toy_cycle:
  assumes "c_Pb st = toy_cycle"
  shows "fst (attempt st)"
  using assms by (simp add: attempt_def toy_cycle_simps gdp_toy_cycle split: prod.splits)

lemma one_pass:
  assumes "c_Pb st = toy_cycle" and "n < B" and "m = n + 2" and "s = on_dp (snd (attempt st))"
  shows "version_loop attempt on_dp B n st = version_loop attempt on_dp B m s"
  using attempt_toy_cycle [OF assms(1)] assms(2,3,4)
  by (subst version_loop.simps) (simp add: split_beta)

lemma pass_Pb: "c_Pb st = toy_cycle \<Longrightarrow> c_Pb (on_dp (snd (attempt st))) = toy_cycle"
  by (simp add: attempt_def on_dp_def split: prod.splits outcome.splits)

lemma funpow_5: "(f ^^ 5) x = f (f (f (f (f x))))"
  by (simp add: eval_nat_numeral)

lemma block_passes:
  assumes "c_Pb st = toy_cycle" and "n + 8 < B"
  shows "version_loop attempt on_dp B n st
         = version_loop attempt on_dp B (n + 10) (((\<lambda>s. on_dp (snd (attempt s))) ^^ 5) st)"
proof -
  let ?p = "\<lambda>s. on_dp (snd (attempt s))"
  define s1 where "s1 = ?p st"
  define s2 where "s2 = ?p s1"
  define s3 where "s3 = ?p s2"
  define s4 where "s4 = ?p s3"
  define s5 where "s5 = ?p s4"
  have Pb: "c_Pb s1 = toy_cycle" "c_Pb s2 = toy_cycle" "c_Pb s3 = toy_cycle" "c_Pb s4 = toy_cycle"
    by (simp_all add: s1_def s2_def s3_def s4_def assms(1) pass_Pb)
  have "version_loop attempt on_dp B n st = version_loop attempt on_dp B (n + 2) s1"
    by (rule one_pass [OF assms(1)]) (use assms(2) in \<open>simp_all add: s1_def\<close>)
  also have "\<dots> = version_loop attempt on_dp B (n + 4) s2"
    by (rule one_pass [OF Pb(1)]) (use assms(2) in \<open>simp_all add: s2_def\<close>)
  also have "\<dots> = version_loop attempt on_dp B (n + 6) s3"
    by (rule one_pass [OF Pb(2)]) (use assms(2) in \<open>simp_all add: s3_def\<close>)
  also have "\<dots> = version_loop attempt on_dp B (n + 8) s4"
    by (rule one_pass [OF Pb(3)]) (use assms(2) in \<open>simp_all add: s4_def\<close>)
  also have "\<dots> = version_loop attempt on_dp B (n + 10) s5"
    by (rule one_pass [OF Pb(4)]) (use assms(2) in \<open>simp_all add: s5_def\<close>)
  also have "s5 = (?p ^^ 5) st"
    by (simp add: funpow_5 s1_def s2_def s3_def s4_def s5_def)
  finally show ?thesis .
qed

lemma pass_insert:
  "on_dp (snd (attempt
     \<lparr>c_Pb = toy_cycle, c_rng = rng, c_dict = None # rest, c_pre_inp0 = 0,
      c_inp0 = a, c_out0 = b, c_inp1 = c, c_out1 = d,
      c_chain_length0 = l0, c_chain_length1 = l1, c_n_collisions = nc,
      c_n_robinhoods = nr, c_n_distinguished_points = np,
      c_collisions_container = cont\<rparr>)) =
     \<lparr>c_Pb = toy_cycle, c_rng = rng, c_dict = Some (0, 1, 1) # rest, c_pre_inp0 = 1,
      c_inp0 = 1, c_out0 = 3, c_inp1 = c, c_out1 = d,
      c_chain_length0 = 1, c_chain_length1 = l1, c_n_collisions = nc,
      c_n_robinhoods = nr, c_n_distinguished_points = np + 1,
      c_collisions_container = cont\<rparr>"
  by (simp add: attempt_def on_dp_def gdp_toy_cycle toy_cycle_simps insert_or_probe_def
      treat_collision_def walk_def send_2_A_and_B_def Let_def)

lemma pass_hit_0:
  "on_dp (snd (attempt
     \<lparr>c_Pb = toy_cycle, c_rng = rng, c_dict = Some (0, 1, 1) # rest, c_pre_inp0 = 0,
      c_inp0 = a, c_out0 = b, c_inp1 = c, c_out1 = d,
      c_chain_length0 = l0, c_chain_length1 = l1, c_n_collisions = nc,
      c_n_robinhoods = nr, c_n_distinguished_points = np,
      c_collisions_container = cont\<rparr>)) =
     \<lparr>c_Pb = toy_cycle, c_rng = rng, c_dict = Some (0, 1, 1) # rest, c_pre_inp0 = 1,
      c_inp0 = 1, c_out0 = 3, c_inp1 = 1, c_out1 = 3,
      c_chain_length0 = 1, c_chain_length1 = 1, c_n_collisions = nc + 1,
      c_n_robinhoods = nr + 1, c_n_distinguished_points = np + 1,
      c_collisions_container = cont\<rparr>"
  by (simp add: attempt_def on_dp_def gdp_toy_cycle toy_cycle_simps insert_or_probe_def
      treat_collision_def walk_def send_2_A_and_B_def Let_def)

lemma pass_hit_1:
  "on_dp (snd (attempt
     \<lparr>c_Pb = toy_cycle, c_rng = rng, c_dict = Some (0, 1, 1) # rest, c_pre_inp0 = 1,
      c_inp0 = a, c_out0 = b, c_inp1 = c, c_out1 = d,
      c_chain_length0 = l0, c_chain_length1 = l1, c_n_collisions = nc,
      c_n_robinhoods = nr, c_n_distinguished_points = np,
      c_collisions_container = cont\<rparr>)) =
     \<lparr>c_Pb = toy_cycle, c_rng = rng, c_dict = Some (0, 1, 1) # rest, c_pre_inp0 = 2,
      c_inp0 = 2, c_out0 = 3, c_inp1 = 1, c_out1 = 3,
      c_chain_length0 = 1, c_chain_length1 = 1, c_n_collisions = nc + 1,
      c_n_robinhoods = nr, c_n_distinguished_points = np + 1,
      c_collisions_container = cont @ [(2, 1)]\<rparr>"
  by (simp add: attempt_def on_dp_def gdp_toy_cycle toy_cycle_simps insert_or_probe_def
      treat_collision_def walk_def send_2_A_and_B_def Let_def)

lemma pass_hit_2:
  "on_dp (snd (attempt
     \<lparr>c_Pb = toy_cycle, c_rng = rng, c_dict = Some (0, 1, 1) # rest, c_pre_inp0 = 2,
      c_inp0 = a, c_out0 = b, c_inp1 = c, c_out1 = d,
      c_chain_length0 = l0, c_chain_length1 = l1, c_n_collisions = nc,
      c_n_robinhoods = nr, c_n_distinguished_points = np,
      c_collisions_container = cont\<rparr>)) =
     \<lparr>c_Pb = toy_cycle, c_rng = rng, c_dict = Some (0, 1, 1) # rest, c_pre_inp0 = 3,
      c_inp0 = 4, c_out0 = 3, c_inp1 = 3, c_out1 = 1,
      c_chain_length0 = 1, c_chain_length1 = 1, c_n_collisions = nc + 1,
      c_n_robinhoods = nr, c_n_distinguished_points = np + 1,
      c_collisions_container = cont\<rparr>"
  by (simp add: attempt_def on_dp_def gdp_toy_cycle toy_cycle_simps insert_or_probe_def
      treat_collision_def walk_def send_2_A_and_B_def Let_def)

lemma pass_hit_3:
  "on_dp (snd (attempt
     \<lparr>c_Pb = toy_cycle, c_rng = rng, c_dict = Some (0, 1, 1) # rest, c_pre_inp0 = 3,
      c_inp0 = a, c_out0 = b, c_inp1 = c, c_out1 = d,
      c_chain_length0 = l0, c_chain_length1 = l1, c_n_collisions = nc,
      c_n_robinhoods = nr, c_n_distinguished_points = np,
      c_collisions_container = cont\<rparr>)) =
     \<lparr>c_Pb = toy_cycle, c_rng = rng, c_dict = Some (0, 1, 1) # rest, c_pre_inp0 = 4,
      c_inp0 = 5, c_out0 = 4, c_inp1 = 3, c_out1 = 1,
      c_chain_length0 = 1, c_chain_length1 = 1, c_n_collisions = nc + 1,
      c_n_robinhoods = nr, c_n_distinguished_points = np + 1,
      c_collisions_container = cont\<rparr>"
  by (simp add: attempt_def on_dp_def gdp_toy_cycle toy_cycle_simps insert_or_probe_def
      treat_collision_def walk_def send_2_A_and_B_def Let_def)

lemma pass_hit_4:
  "on_dp (snd (attempt
     \<lparr>c_Pb = toy_cycle, c_rng = rng, c_dict = Some (0, 1, 1) # rest, c_pre_inp0 = 4,
      c_inp0 = a, c_out0 = b, c_inp1 = c, c_out1 = d,
      c_chain_length0 = l0, c_chain_length1 = l1, c_n_collisions = nc,
      c_n_robinhoods = nr, c_n_distinguished_points = np,
      c_collisions_container = cont\<rparr>)) =
     \<lparr>c_Pb = toy_cycle, c_rng = rng, c_dict = Some (0, 1, 1) # rest, c_pre_inp0 = 0,
      c_inp0 = 1, c_out0 = 0, c_inp1 = 3, c_out1 = 1,
      c_chain_length0 = 1, c_chain_length1 = 1, c_n_collisions = nc + 1,
      c_n_robinhoods = nr, c_n_distinguished_points = np + 1,
      c_collisions_container = cont\<rparr>"
  by (simp add: attempt_def on_dp_def gdp_toy_cycle toy_cycle_simps insert_or_probe_def
      treat_collision_def walk_def send_2_A_and_B_def Let_def)

lemmas passes = pass_insert pass_hit_0 pass_hit_1 pass_hit_2 pass_hit_3 pass_hit_4

lemma first_block:
  "((\<lambda>s. on_dp (snd (attempt s))) ^^ 5)
     \<lparr>c_Pb = toy_cycle, c_rng = rng, c_dict = None # rest, c_pre_inp0 = 0,
      c_inp0 = a, c_out0 = b, c_inp1 = c, c_out1 = d,
      c_chain_length0 = l0, c_chain_length1 = l1, c_n_collisions = nc,
      c_n_robinhoods = nr, c_n_distinguished_points = np,
      c_collisions_container = cont\<rparr>
   = settled rng (Some (0, 1, 1) # rest) (nc + 4) nr (np + 5) (cont @ [(2, 1)])"
  by (simp add: funpow_5 settled_def passes)

lemma next_block:
  "((\<lambda>s. on_dp (snd (attempt s))) ^^ 5) (settled rng (Some (0, 1, 1) # rest) nc nr np cont)
   = settled rng (Some (0, 1, 1) # rest) (nc + 5) (nr + 1) (np + 5) (cont @ [(2, 1)])"
  by (simp add: funpow_5 settled_def passes)


lemma blocks:
  assumes "n + 10 * k \<le> B"
  shows "version_loop attempt on_dp B n (settled rng (Some (0, 1, 1) # rest) nc nr np cont)
         = version_loop attempt on_dp B (n + 10 * k)
             (settled rng (Some (0, 1, 1) # rest) (nc + 5 * k) (nr + k) (np + 5 * k)
                (cont @ replicate k (2, 1)))"
  using assms
proof (induction k arbitrary: n nc nr np cont)
  case 0
  then show ?case by simp
next
  case (Suc k)
  have Pb: "c_Pb (settled rng (Some (0, 1, 1) # rest) nc nr np cont) = toy_cycle"
    by (simp add: settled_def)
  have "version_loop attempt on_dp B n (settled rng (Some (0, 1, 1) # rest) nc nr np cont)
        = version_loop attempt on_dp B (n + 10)
            (settled rng (Some (0, 1, 1) # rest) (nc + 5) (nr + 1) (np + 5) (cont @ [(2, 1)]))"
    using block_passes [OF Pb, of n B] Suc.prems by (simp add: next_block)
  also have "\<dots> = version_loop attempt on_dp B (n + 10 + 10 * k)
            (settled rng (Some (0, 1, 1) # rest) (nc + 5 + 5 * k) (nr + 1 + k) (np + 5 + 5 * k)
               ((cont @ [(2, 1)]) @ replicate k (2, 1)))"
    using Suc.prems by (intro Suc.IH) simp
  finally show ?case by (simp add: algebra_simps)
qed

lemma version_loop_exit: "version_loop attempt on_dp B B st = st"
  by (subst version_loop.simps) simp

lemma version_toy_cycle:
  "version \<lparr>c_Pb = toy_cycle, c_rng = rng, c_dict = slot # rest, c_pre_inp0 = 0,
      c_inp0 = a, c_out0 = b, c_inp1 = c, c_out1 = d,
      c_chain_length0 = l0, c_chain_length1 = l1, c_n_collisions = nc,
      c_n_robinhoods = nr, c_n_distinguished_points = np,
      c_collisions_container = cont\<rparr>
   = settled rng (Some (0, 1, 1) # map (\<lambda>slot. None) rest) (nc + 4 + 5 * length rest)
       (nr + length rest) (np + 5 + 5 * length rest)
       (cont @ replicate (Suc (length rest)) (2, 1))"
proof -
  let ?B = "10 * length (slot # rest)" and ?rest = "map (\<lambda>slot. None) rest :: u32 Dict"
  let ?st0 = "\<lparr>c_Pb = toy_cycle, c_rng = rng, c_dict = None # ?rest, c_pre_inp0 = 0,
      c_inp0 = a, c_out0 = b, c_inp1 = c, c_out1 = d,
      c_chain_length0 = l0, c_chain_length1 = l1, c_n_collisions = nc,
      c_n_robinhoods = nr, c_n_distinguished_points = np,
      c_collisions_container = cont\<rparr>"
  have "version \<lparr>c_Pb = toy_cycle, c_rng = rng, c_dict = slot # rest, c_pre_inp0 = 0,
      c_inp0 = a, c_out0 = b, c_inp1 = c, c_out1 = d,
      c_chain_length0 = l0, c_chain_length1 = l1, c_n_collisions = nc,
      c_n_robinhoods = nr, c_n_distinguished_points = np,
      c_collisions_container = cont\<rparr>
    = version_loop attempt on_dp ?B 0 ?st0"
    by (simp add: version_def toy_cycle_simps Dict_flush_def)
  also have "\<dots> = version_loop attempt on_dp ?B (0 + 10)
      (settled rng (Some (0, 1, 1) # ?rest) (nc + 4) nr (np + 5) (cont @ [(2, 1)]))"
    using block_passes [of ?st0 0 ?B] by (simp add: first_block)
  also have "\<dots> = version_loop attempt on_dp ?B (0 + 10 + 10 * length rest)
      (settled rng (Some (0, 1, 1) # ?rest) (nc + 4 + 5 * length rest) (nr + length rest)
         (np + 5 + 5 * length rest) ((cont @ [(2, 1)]) @ replicate (length rest) (2, 1)))"
    by (rule blocks) simp
  also have "0 + 10 + 10 * length rest = ?B" by simp
  finally show ?thesis by (simp add: version_loop_exit)
qed

lemma collision_while_settled:
  "\<exists>d' nc' nr' np' cont'.
     collision_while (settled rng (slot # rest) nc nr np cont)
       = Some (settled rng d' nc' nr' np' cont')"
proof (induction "2 ^ 20 - nc" arbitrary: slot rest nc nr np cont rule: less_induct)
  case less
  show ?case
  proof (cases "nc < 2 ^ 20")
    case False
    then have "collision_while (settled rng (slot # rest) nc nr np cont)
               = Some (settled rng (slot # rest) nc nr np cont)"
      by (subst collision_while.simps) (simp add: settled_def)
    then show ?thesis by blast
  next
    case True
    then have "collision_while (settled rng (slot # rest) nc nr np cont)
               = collision_while (version (settled rng (slot # rest) nc nr np cont))"
      by (subst collision_while.simps) (simp add: settled_def)
    also have "version (settled rng (slot # rest) nc nr np cont)
               = settled rng (Some (0, 1, 1) # map (\<lambda>slot. None) rest) (nc + 4 + 5 * length rest)
                   (nr + length rest) (np + 5 + 5 * length rest)
                   (cont @ replicate (Suc (length rest)) (2, 1))"
      unfolding settled_def [of rng "slot # rest"] by (rule version_toy_cycle)
    finally have step: "collision_while (settled rng (slot # rest) nc nr np cont)
        = collision_while (settled rng (Some (0, 1, 1) # map (\<lambda>slot. None) rest)
            (nc + 4 + 5 * length rest) (nr + length rest) (np + 5 + 5 * length rest)
            (cont @ replicate (Suc (length rest)) (2, 1)))" .
    have "2 ^ 20 - (nc + 4 + 5 * length rest) < 2 ^ 20 - nc" using True by simp
    from less.hyps [OF this] show ?thesis unfolding step .
  qed
qed

text \<open>
  C1, for the sequential engine's \<^verbatim>\<open>collision\<close>: the pair it returns satisfies
  \<^verbatim>\<open>f(x0) == g(x1)\<close>. \<^verbatim>\<open>collision\<close> returns \<^verbatim>\<open>pair(*inp0_pt, *inp1_pt)\<close>, the scratch buffers
  as the last pass left them. On the problem \<open>toy_cycle\<close>, whatever the generator's state
  and for every dictionary of at least one slot, every version finds the collision
  \<^verbatim>\<open>f(2) = f(1) = 3\<close> and stores \<^verbatim>\<open>(2, 1)\<close> in the container, and once \<^verbatim>\<open>2^20\<close> dictionary hits
  are counted the function returns \<^verbatim>\<open>(1, 3)\<close>, for which \<^verbatim>\<open>f(1) = 3\<close> and \<^verbatim>\<open>f(3) = 4\<close>.
\<close>

theorem collision_returns_scratch_buffers:
  "collision toy_cycle rng (Suc S) 0 = Some (1, 3)
   \<and> Pb_f toy_cycle (send_C_to_A toy_cycle 1) = 3
   \<and> Pb_g toy_cycle (send_C_to_B toy_cycle 3) = 4
   \<and> Pb_f toy_cycle (send_C_to_A toy_cycle 2) = Pb_g toy_cycle (send_C_to_B toy_cycle 1)"
proof -
  let ?init = "\<lparr>c_Pb = toy_cycle, c_rng = rng, c_dict = None # replicate S None, c_pre_inp0 = 0,
      c_inp0 = 0, c_out0 = 0, c_inp1 = 0, c_out1 = 0,
      c_chain_length0 = 0, c_chain_length1 = 0, c_n_collisions = 0,
      c_n_robinhoods = 0, c_n_distinguished_points = 0,
      c_collisions_container = []\<rparr> :: (u32, u32, u32, 'a) Locals"
  have "\<exists>d' nc' nr' np' cont'.
          collision_while (version ?init) = Some (settled rng d' nc' nr' np' cont')"
    unfolding version_toy_cycle by (rule collision_while_settled)
  then obtain d' nc' nr' np' cont' where
    "collision_while (version ?init) = Some (settled rng d' nc' nr' np' cont')"
    by blast
  moreover have "collision_while ?init = collision_while (version ?init)"
    by (subst collision_while.simps) simp
  ultimately have "collision toy_cycle rng (Suc S) 0 = Some (1, 3)"
    by (simp add: collision_def Dict_new_def settled_def)
  then show ?thesis by (simp add: toy_cycle_def)
qed

text \<open>
  The two entry points of include/mitm.hpp assert the post-condition before they
  return, so a pair they return has it (for \<^verbatim>\<open>claw_search\<close> with \<^verbatim>\<open>n <= 30\<close>, where the
  \<^verbatim>\<open>int\<close> mask of the quality control is \<^verbatim>\<open>2^n - 1\<close>); \<^verbatim>\<open>collision_search\<close> asserts no bound
  on its two values.
\<close>

lemma collision_search_post:
  assumes "collision_search Pb run = Inr (a, b)"
  shows "a \<noteq> b \<and> pb_f Pb a = pb_f Pb b \<and> pb_is_good_pair Pb a b"
  using assms
  by (auto simp: collision_search_def Let_def split: prod.splits if_splits)

lemma quality_control_post:
  assumes "quality_control pb u v = Inr (x0, x1)" and "pb_n pb \<le> 30"
  shows "x0 < 2 ^ pb_n pb \<and> x1 < 2 ^ pb_n pb \<and> pb_f pb x0 = pb_g pb x1
         \<and> pb_is_good_pair pb x0 x1"
proof -
  from assms(1) have eq: "x0 = u" "x1 = v"
    and m: "x0 AND (2 ^ pb_n pb - 1) = x0" "x1 AND (2 ^ pb_n pb - 1) = x1"
    and r: "pb_f pb x0 = pb_g pb x1" "pb_is_good_pair pb x0 x1"
    by (auto simp: quality_control_def split: if_splits)
  have lt: "x < 2 ^ pb_n pb" if "x AND (2 ^ pb_n pb - 1) = x" for x :: u64
  proof -
    have "(2 ^ pb_n pb - 1 :: u64) = mask (pb_n pb)" by (simp add: mask_eq_exp_minus_1)
    with that have "x AND mask (pb_n pb) = x" by simp
    moreover have "pb_n pb < LENGTH(64)" using assms(2) by simp
    ultimately show ?thesis by (metis and_mask_less')
  qed
  from lt [OF m(1)] lt [OF m(2)] r show ?thesis by simp
qed

lemma claw_search_post:
  assumes "claw_search pb run = Inr (x0, x1)" and "pb_n pb \<le> 30"
  shows "x0 < 2 ^ pb_n pb \<and> x1 < 2 ^ pb_n pb \<and> pb_f pb x0 = pb_g pb x1
         \<and> pb_is_good_pair pb x0 x1"
proof -
  from assms(1) obtain u v where "quality_control pb u v = Inr (x0, x1)"
    by (auto simp: claw_search_def split: prod.splits if_splits sum.splits)
  then show ?thesis using assms(2) by (rule quality_control_post)
qed

end
